theory Spec2Isabelle
  imports Main "HOL-Library.Word" "HOL-Library.Monad_Syntax"
begin

section \<open>Data model\<close>

text \<open>
  A medium page is an array \<open>cells\<close> of \<open>MEDIUM_PAGE_CELL_COUNT\<close> eight-byte units and a
  cursor \<open>curBlock\<close> pointing at one of them. (The members lose the trailing underscore of
  the source, which an Isabelle name cannot end in: \<open>cells_\<close> is \<open>cells\<close>, \<open>curBlock_\<close>
  is \<open>curBlock\<close>, \<open>isAllocated_\<close> is \<open>isAllocated\<close> and \<open>size_\<close> is \<open>cellSize\<close>.) A unit that heads a block is read as a
  \<open>Cell\<close> header (\<open>isAllocated\<close>, \<open>cellSize\<close>); the units after it are the block's payload.
  Pointers into \<open>cells\<close> are modelled as indices, so \<open>cells + k\<close> is the index \<open>k\<close> and
  the one-past-the-end pointer is the index \<open>MEDIUM_PAGE_CELL_COUNT\<close>. The constant comes
  from \<open>CustomAllocConstants.hpp\<close>; it is the parameter \<open>N\<close> of every operation below.
\<close>

type_synonym u32 = "32 word"

record Cell =
  isAllocated :: bool
  cellSize :: u32

record MediumPage =
  cells :: "Cell list"
  curBlock :: nat

datatype error = RuntimeAssertFailed

text \<open>What the constant has to satisfy: the page holds \<open>cells[0]\<close> and \<open>cells[1]\<close>, and the
  count is a \<open>uint32_t\<close> value.\<close>

definition valid_CELL_COUNT :: "nat \<Rightarrow> bool" where
  "valid_CELL_COUNT N = (2 \<le> N \<and> N < 2 ^ 32)"

section \<open>Cell\<close>

text \<open>Modelled from the spec: the constructor \<open>Cell(size)\<close> of \<open>Cell.cpp\<close>, which is not
  among the sources. It makes a free cell of the given size.\<close>

definition Cell_new :: "u32 \<Rightarrow> Cell" where
  "Cell_new sz = \<lparr>isAllocated = False, cellSize = sz\<rparr>"

text \<open>Modelled from the spec: \<open>Cell::Next\<close>, the cell's address plus \<open>cellSize\<close> units
  (pure address arithmetic, no mutation).\<close>

definition Cell_Next :: "Cell list \<Rightarrow> nat \<Rightarrow> nat" where
  "Cell_Next cs i = i + unat (cellSize (cs ! i))"

text \<open>Modelled from the spec: \<open>data_\<close>, the payload, starts right after the header unit.\<close>

definition Cell_data :: "nat \<Rightarrow> nat" where
  "Cell_data i = i + 1"

text \<open>Modelled from the spec: \<open>Cell::Deallocate\<close> sets allocated to false and does nothing
  else.\<close>

definition Cell_Deallocate :: "Cell list \<Rightarrow> nat \<Rightarrow> Cell list" where
  "Cell_Deallocate cs i = cs[i := (cs ! i)\<lparr>isAllocated := False\<rparr>]"

text \<open>Modelled from the spec: \<open>Cell::TryAllocate(cellsNeeded)\<close>. It fails, with no side
  effect and a null result, if the cell is allocated or smaller than \<open>cellsNeeded\<close>.
  Otherwise it marks the cell allocated; if the cell is larger than \<open>cellsNeeded\<close> it shrinks
  the recorded size to \<open>cellsNeeded\<close> and writes a free header right after the shrunk cell
  with the rest of the size. The result is the updated array and the payload address
  (\<open>None\<close> is the null pointer). The spec states \<open>cellsNeeded \<ge> 1\<close> as the caller's part
  of the contract; the steps are applied as written, in the order the spec gives them, for
  every value of \<open>cellsNeeded\<close>, so that the one request that breaks the contract
  (\<open>blockSize = 2^32 - 1\<close>, for which \<open>blockSize + 1\<close> wraps to 0) has a value too.\<close>

definition Cell_TryAllocate :: "Cell list \<Rightarrow> nat \<Rightarrow> u32 \<Rightarrow> Cell list \<times> nat option" where
  "Cell_TryAllocate cs i cellsNeeded =
     (if isAllocated (cs ! i) \<or> cellSize (cs ! i) < cellsNeeded then (cs, None)
      else
        let original = cellSize (cs ! i);
            cs1 = cs[i := (cs ! i)\<lparr>isAllocated := True\<rparr>];
            cs2 = (if cellsNeeded < original
                   then let cs' = cs1[i := (cs1 ! i)\<lparr>cellSize := cellsNeeded\<rparr>]
                        in cs'[Cell_Next cs' i := Cell_new (original - cellsNeeded)]
                   else cs1)
        in (cs2, Some (Cell_data i)))"

section \<open>MediumPage\<close>

subsection \<open>Create\<close>

text \<open>\<open>MediumPage::Create\<close> and the constructor. \<open>raw\<close> is the block that \<open>SafeAlloc\<close>
  returned: the constructor writes \<open>cells[0]\<close>, \<open>cells[1]\<close> and the cursor and leaves the
  other units as they were. A failed \<open>RuntimeAssert\<close> aborts.\<close>

definition MediumPage_new :: "nat \<Rightarrow> Cell list \<Rightarrow> u32 \<Rightarrow> MediumPage" where
  "MediumPage_new N raw cellCount =
     \<lparr>cells = (raw[0 := Cell_new 0])[1 := Cell_new (of_nat (N - 1))], curBlock = 0\<rparr>"

definition Create :: "nat \<Rightarrow> Cell list \<Rightarrow> u32 \<Rightarrow> error + MediumPage" where
  "Create N raw cellCount =
     (if unat cellCount < N then Inr (MediumPage_new N raw cellCount)
      else Inl RuntimeAssertFailed)"

subsection \<open>UpdateCurBlock\<close>

text \<open>The two \<open>for\<close> loops of \<open>UpdateCurBlock\<close> have the same body and differ in where they
  start and stop, so one function runs both: \<open>stop\<close> is \<open>end\<close> for the first loop and
  \<open>curBlock\<close> for the second. \<open>Found b\<close> is the early return with \<open>curBlock = b\<close>;
  \<open>Exhausted m\<close> is the loop running out with \<open>maxBlock = m\<close>. The result \<open>None\<close> stands for
  a call that does not return a defined result: the walk never ends, or it reads a header
  at or beyond \<open>end\<close>.\<close>

datatype scan = Found nat | Exhausted nat

partial_function (option) UpdateCurBlock_loop ::
  "nat \<Rightarrow> Cell list \<Rightarrow> u32 \<Rightarrow> nat \<Rightarrow> nat \<Rightarrow> nat \<Rightarrow> scan option" where
  "UpdateCurBlock_loop N cs cellsNeeded stop maxBlock block =
     (if block = stop then Some (Exhausted maxBlock)
      else if N \<le> block then None
      else if \<not> isAllocated (cs ! block) \<and> cellSize (cs ! maxBlock) < cellSize (cs ! block)
      then (if cellsNeeded \<le> cellSize (cs ! block) then Some (Found block)
            else UpdateCurBlock_loop N cs cellsNeeded stop block (Cell_Next cs block))
      else UpdateCurBlock_loop N cs cellsNeeded stop maxBlock (Cell_Next cs block))"

definition UpdateCurBlock :: "nat \<Rightarrow> MediumPage \<Rightarrow> u32 \<Rightarrow> MediumPage option" where
  "UpdateCurBlock N p cellsNeeded =
     (let p1 = (if curBlock p = 0 then p\<lparr>curBlock := 1\<rparr> else p) in
      case UpdateCurBlock_loop N (cells p1) cellsNeeded N 0 (curBlock p1) of
        None \<Rightarrow> None
      | Some (Found b) \<Rightarrow> Some (p1\<lparr>curBlock := b\<rparr>)
      | Some (Exhausted m) \<Rightarrow>
          (case UpdateCurBlock_loop N (cells p1) cellsNeeded (curBlock p1) m 1 of
             None \<Rightarrow> None
           | Some (Found b) \<Rightarrow> Some (p1\<lparr>curBlock := b\<rparr>)
           | Some (Exhausted m') \<Rightarrow> Some (p1\<lparr>curBlock := m'\<rparr>)))"

subsection \<open>TryAllocate\<close>

text \<open>\<open>MediumPage::TryAllocate\<close>. \<open>blockSize + 1\<close> is \<open>uint32_t\<close> addition. The result is the
  page after the call and the returned pointer (\<open>None\<close> is the null pointer, "no space").\<close>

definition TryAllocate :: "nat \<Rightarrow> MediumPage \<Rightarrow> u32 \<Rightarrow> (MediumPage \<times> nat option) option" where
  "TryAllocate N p blockSize =
     (let cellsNeeded = blockSize + 1;
          (cs1, block) = Cell_TryAllocate (cells p) (curBlock p) cellsNeeded
      in if block \<noteq> None then Some (p\<lparr>cells := cs1\<rparr>, block)
         else case UpdateCurBlock N (p\<lparr>cells := cs1\<rparr>) cellsNeeded of
                None \<Rightarrow> None
              | Some p2 \<Rightarrow>
                  (let (cs3, block') = Cell_TryAllocate (cells p2) (curBlock p2) cellsNeeded
                   in Some (p2\<lparr>cells := cs3\<rparr>, block')))"

subsection \<open>Sweep\<close>

text \<open>Modelled from the spec: \<open>TryResetMark\<close> of \<open>GCApi\<close>, the collector's test-and-clear of
  the mark of the object at a payload address. The marks are the set of payload addresses
  whose object is marked.\<close>

definition TryResetMark :: "nat set \<Rightarrow> nat \<Rightarrow> bool \<times> nat set" where
  "TryResetMark marks a = (a \<in> marks, marks - {a})"

text \<open>The first loop of \<open>Sweep\<close> (reclaim). As in \<open>UpdateCurBlock\<close>, \<open>None\<close> is a walk
  that never ends or that reads a header beyond \<open>end\<close>.\<close>

partial_function (option) Sweep_loop1 ::
  "nat \<Rightarrow> Cell list \<Rightarrow> nat set \<Rightarrow> bool \<Rightarrow> nat \<Rightarrow> (Cell list \<times> nat set \<times> bool) option" where
  "Sweep_loop1 N cs marks alive block =
     (if block = N then Some (cs, marks, alive)
      else if N < block then None
      else if isAllocated (cs ! block)
      then (let (marked, marks') = TryResetMark marks (Cell_data block) in
            if marked then Sweep_loop1 N cs marks' True (Cell_Next cs block)
            else let cs' = Cell_Deallocate cs block
                 in Sweep_loop1 N cs' marks' alive (Cell_Next cs' block))
      else Sweep_loop1 N cs marks alive (Cell_Next cs block))"

text \<open>The inner \<open>while\<close> loop of the second loop: \<open>block\<close> absorbs the free cells after it.\<close>

partial_function (option) Sweep_absorb :: "nat \<Rightarrow> Cell list \<Rightarrow> nat \<Rightarrow> Cell list option" where
  "Sweep_absorb N cs block =
     (if Cell_Next cs block = N then Some cs
      else if N < Cell_Next cs block then None
      else if isAllocated (cs ! Cell_Next cs block) then Some cs
      else Sweep_absorb N
             (cs[block := (cs ! block)\<lparr>cellSize := cellSize (cs ! block) + cellSize (cs ! Cell_Next cs block)\<rparr>])
             block)"

text \<open>The second loop of \<open>Sweep\<close> (coalesce and pick the largest free cell).\<close>

partial_function (option) Sweep_loop2 ::
  "nat \<Rightarrow> Cell list \<Rightarrow> nat \<Rightarrow> nat \<Rightarrow> (Cell list \<times> nat) option" where
  "Sweep_loop2 N cs maxBlock block =
     (if block = N then Some (cs, maxBlock)
      else if N < block then None
      else if isAllocated (cs ! block) then Sweep_loop2 N cs maxBlock (Cell_Next cs block)
      else do {
        cs' \<leftarrow> Sweep_absorb N cs block;
        Sweep_loop2 N cs'
          (if cellSize (cs' ! maxBlock) < cellSize (cs' ! block) then block else maxBlock)
          (Cell_Next cs' block)
      })"

definition Sweep :: "nat \<Rightarrow> MediumPage \<Rightarrow> nat set \<Rightarrow> (MediumPage \<times> nat set \<times> bool) option" where
  "Sweep N p marks =
     do {
       (cs1, marks1, alive) \<leftarrow> Sweep_loop1 N (cells p) marks False 1;
       (cs2, maxBlock) \<leftarrow> Sweep_loop2 N cs1 0 1;
       Some (p\<lparr>cells := cs2, curBlock := maxBlock\<rparr>, marks1, alive)
     }"

subsection \<open>CheckInvariants\<close>

text \<open>\<open>CheckInvariants\<close>. The cursor is an index, so it cannot lie below \<open>cells\<close>; the other
  bound is checked as in the source. The loop returns at the first \<open>Next\<close> that does not
  advance, passes \<open>end\<close> or hits it, so it always ends.\<close>

function CheckInvariants_loop :: "nat \<Rightarrow> Cell list \<Rightarrow> nat \<Rightarrow> bool" where
  "CheckInvariants_loop N cs cur =
     (if Cell_Next cs cur \<le> cur then False
      else if N < Cell_Next cs cur then False
      else if Cell_Next cs cur = N then True
      else CheckInvariants_loop N cs (Cell_Next cs cur))"
  by pat_completeness auto
termination
  by (relation "measure (\<lambda>(N, cs, cur). N - cur)") auto

declare CheckInvariants_loop.simps [simp del]

definition CheckInvariants :: "nat \<Rightarrow> MediumPage \<Rightarrow> bool" where
  "CheckInvariants N p =
     (if N \<le> curBlock p then False else CheckInvariants_loop N (cells p) 1)"


section \<open>Vocabulary of the properties\<close>

text \<open>\<open>path N cs i stop js\<close>: following \<open>Next\<close> from the cell at \<open>i\<close> visits exactly the headers
  \<open>js\<close>, each inside the page and of non-zero size, and then arrives at \<open>stop\<close>. A chain is a
  path to the end of the page: the cells tile the page from \<open>i\<close> on, with no gap or overlap.\<close>

fun path :: "nat \<Rightarrow> Cell list \<Rightarrow> nat \<Rightarrow> nat \<Rightarrow> nat list \<Rightarrow> bool" where
  "path N cs i stop [] = (i = stop)"
| "path N cs i stop (j # js) =
     (j = i \<and> i \<noteq> stop \<and> i < N \<and> cellSize (cs ! i) \<noteq> 0 \<and> path N cs (Cell_Next cs i) stop js)"

abbreviation chain :: "nat \<Rightarrow> Cell list \<Rightarrow> nat \<Rightarrow> nat list \<Rightarrow> bool" where
  "chain N cs i js \<equiv> path N cs i N js"

text \<open>The headers met when walking from \<open>i\<close> for as long as the walk stays inside the page
  and advances.\<close>

function cellChain :: "nat \<Rightarrow> Cell list \<Rightarrow> nat \<Rightarrow> nat list" where
  "cellChain N cs i =
     (if i < N \<and> cellSize (cs ! i) \<noteq> 0 then i # cellChain N cs (Cell_Next cs i) else [])"
  by pat_completeness auto
termination
proof (relation "measure (\<lambda>(N, cs, i). N - i)")
  show "wf (measure (\<lambda>(N, cs, i). N - i))" by simp
next
  fix N :: nat and cs :: "Cell list" and i :: nat
  assume a: "i < N \<and> cellSize (cs ! i) \<noteq> 0"
  then have "0 < unat (cellSize (cs ! i))" by (simp add: unat_gt_0)
  then show "((N, cs, Cell_Next cs i), (N, cs, i)) \<in> measure (\<lambda>(N, cs, i). N - i)"
    using a by (simp add: Cell_Next_def) arith
qed

declare cellChain.simps [simp del]

text \<open>A well-formed page: the state that \<open>CheckInvariants\<close> accepts, with a zero-size
  sentinel and the cursor on the sentinel or on a cell of the chain.\<close>

definition wf_page :: "nat \<Rightarrow> MediumPage \<Rightarrow> bool" where
  "wf_page N p =
     (valid_CELL_COUNT N \<and> length (cells p) = N \<and> cellSize (cells p ! 0) = 0 \<and>
      CheckInvariants N p \<and>
      (curBlock p = 0 \<or> curBlock p \<in> set (cellChain N (cells p) 1)))"

text \<open>A cell qualifies for a request when it is free and at least \<open>cellsNeeded\<close> long.\<close>

definition qualifies :: "Cell list \<Rightarrow> u32 \<Rightarrow> nat \<Rightarrow> bool" where
  "qualifies cs cellsNeeded b = (\<not> isAllocated (cs ! b) \<and> cellsNeeded \<le> cellSize (cs ! b))"

text \<open>The order in which \<open>UpdateCurBlock\<close> inspects the cells: from the cursor (index 1 when
  the cursor is the sentinel) to the end of the page, then from index 1 up to the cursor.\<close>

definition scanOrder :: "nat \<Rightarrow> MediumPage \<Rightarrow> nat list" where
  "scanOrder N p =
     (let start = (if curBlock p = 0 then 1 else curBlock p)
      in cellChain N (cells p) start @
         takeWhile (\<lambda>b. b \<noteq> start) (cellChain N (cells p) 1))"

text \<open>The running maximum that both \<open>UpdateCurBlock\<close> and \<open>Sweep\<close> keep in \<open>maxBlock\<close>: a
  free cell replaces the current one only when it is strictly larger.\<close>

fun maxFree :: "Cell list \<Rightarrow> nat \<Rightarrow> nat list \<Rightarrow> nat" where
  "maxFree cs m [] = m"
| "maxFree cs m (b # bs) =
     maxFree cs (if \<not> isAllocated (cs ! b) \<and> cellSize (cs ! m) < cellSize (cs ! b) then b else m) bs"

text \<open>Coalescing as the spec words it, on the cells in chain order: a free cell absorbs every
  free cell that follows it directly, summing the sizes.\<close>

fun coalesce :: "Cell list \<Rightarrow> Cell list" where
  "coalesce (a # b # r) =
     (if \<not> isAllocated a \<and> \<not> isAllocated b
      then coalesce (a\<lparr>cellSize := cellSize a + cellSize b\<rparr> # r)
      else a # coalesce (b # r))"
| "coalesce r = r"

text \<open>Two free cells in a row, in a list of cells in chain order.\<close>

fun adjacentFree :: "Cell list \<Rightarrow> bool" where
  "adjacentFree (a # b # r) = ((\<not> isAllocated a \<and> \<not> isAllocated b) \<or> adjacentFree (b # r))"
| "adjacentFree r = False"

text \<open>The public operations on a created page, and a run of them. \<open>OpSweep marks\<close> is a
  \<open>Sweep\<close> with the marks the collector left for it.\<close>

datatype op = OpTryAllocate u32 | OpSweep "nat set"

fun step :: "nat \<Rightarrow> MediumPage \<Rightarrow> op \<Rightarrow> MediumPage option" where
  "step N p (OpTryAllocate blockSize) = map_option fst (TryAllocate N p blockSize)"
| "step N p (OpSweep marks) = map_option fst (Sweep N p marks)"

fun run :: "nat \<Rightarrow> MediumPage \<Rightarrow> op list \<Rightarrow> MediumPage option" where
  "run N p [] = Some p"
| "run N p (x # xs) = (case step N p x of None \<Rightarrow> None | Some p' \<Rightarrow> run N p' xs)"

text \<open>Two small pages of eight units. In \<open>page_fit\<close> the cells are an allocated cell of
  size 2 at index 1 and free cells of sizes 1, 3 and 1 at indices 3, 4 and 7, and the cursor is
  on the last one. In \<open>page_tie\<close> free cells of size 2 at indices 1 and 4 alternate with
  allocated cells at indices 3 and 6, and the cursor is at index 4. The units inside a cell
  hold stale data.\<close>

definition page_fit :: MediumPage where
  "page_fit =
     \<lparr>cells = [Cell_new 0,
               \<lparr>isAllocated = True, cellSize = 2\<rparr>, Cell_new 9,
               Cell_new 1,
               Cell_new 3, Cell_new 9, Cell_new 9,
               Cell_new 1],
      curBlock = 7\<rparr>"

definition page_tie :: MediumPage where
  "page_tie =
     \<lparr>cells = [Cell_new 0,
               Cell_new 2, Cell_new 9,
               \<lparr>isAllocated = True, cellSize = 1\<rparr>,
               Cell_new 2, Cell_new 9,
               \<lparr>isAllocated = True, cellSize = 2\<rparr>, Cell_new 9],
      curBlock = 4\<rparr>"

text \<open>\<open>page_sweep\<close> is the page of eight units after \<open>TryAllocate(1)\<close>,
  \<open>TryAllocate(0)\<close> and \<open>TryAllocate(1)\<close>: allocated cells of sizes 2, 1 and 2 at indices
  1, 3 and 4 and a free cell of size 2 at index 6. \<open>page_swept\<close> is that page after a
  \<open>Sweep\<close> in which only the first object, at payload address 2, was marked.\<close>

definition page_sweep :: MediumPage where
  "page_sweep =
     \<lparr>cells = [Cell_new 0,
               \<lparr>isAllocated = True, cellSize = 2\<rparr>, Cell_new 9,
               \<lparr>isAllocated = True, cellSize = 1\<rparr>,
               \<lparr>isAllocated = True, cellSize = 2\<rparr>, Cell_new 9,
               Cell_new 2, Cell_new 9],
      curBlock = 4\<rparr>"

definition page_swept :: MediumPage where
  "page_swept =
     \<lparr>cells = [Cell_new 0,
               \<lparr>isAllocated = True, cellSize = 2\<rparr>, Cell_new 9,
               Cell_new 5,
               Cell_new 2, Cell_new 9,
               Cell_new 2, Cell_new 9],
      curBlock = 3\<rparr>"

text \<open>\<open>page_full\<close> is the page of eight units after \<open>TryAllocate(2)\<close> and
  \<open>TryAllocate(3)\<close>: allocated cells of sizes 3 and 4 at indices 1 and 4, no free cell, and
  the cursor on the second one.\<close>

definition page_full :: MediumPage where
  "page_full =
     \<lparr>cells = [Cell_new 0,
               \<lparr>isAllocated = True, cellSize = 3\<rparr>, Cell_new 9, Cell_new 9,
               \<lparr>isAllocated = True, cellSize = 4\<rparr>, Cell_new 9, Cell_new 9, Cell_new 9],
      curBlock = 4\<rparr>"

declare UpdateCurBlock_loop.simps [code]
declare Sweep_loop1.simps [code]
declare Sweep_absorb.simps [code]
declare Sweep_loop2.simps [code]

section \<open>Walking the chain\<close>


lemma Cell_Next_gt: "cellSize (cs ! i) \<noteq> 0 \<Longrightarrow> i < Cell_Next cs i"
  by (simp add: Cell_Next_def unat_gt_0)

lemma cellChain_stop: "N \<le> i \<Longrightarrow> cellChain N cs i = []"
  by (simp add: cellChain.simps)

lemma path_bounds: "path N cs i stop js \<Longrightarrow> j \<in> set js \<Longrightarrow> i \<le> j \<and> j < N"
proof (induction js arbitrary: i)
  case Nil
  then show ?case by simp
next
  case (Cons a js)
  then show ?case using Cell_Next_gt[of cs i] by fastforce
qed

lemma path_le_stop: "path N cs i stop js \<Longrightarrow> i \<le> stop"
proof (induction js arbitrary: i)
  case Nil
  then show ?case by simp
next
  case (Cons a js)
  then show ?case using Cell_Next_gt[of cs i] by fastforce
qed

lemma path_lt_stop: "path N cs i stop js \<Longrightarrow> j \<in> set js \<Longrightarrow> j < stop"
proof (induction js arbitrary: i)
  case Nil
  then show ?case by simp
next
  case (Cons a js)
  then show ?case using path_le_stop[of N cs i stop "a # js"] by auto
qed

lemma path_cong:
  "path N cs i stop js \<Longrightarrow> \<forall>j\<in>set js. cellSize (cs' ! j) = cellSize (cs ! j) \<Longrightarrow>
   path N cs' i stop js"
  by (induction js arbitrary: i) (auto simp: Cell_Next_def)

lemma path_sorted: "path N cs i stop js \<Longrightarrow> sorted_wrt (<) js"
proof (induction js arbitrary: i)
  case Nil
  then show ?case by simp
next
  case (Cons a js)
  then show ?case using path_bounds[of N cs "Cell_Next cs i" stop js] Cell_Next_gt[of cs i]
    by fastforce
qed

lemma path_distinct: "path N cs i stop js \<Longrightarrow> distinct js"
  using path_sorted strict_sorted_iff by blast

lemma path_append:
  "path N cs i k js \<Longrightarrow> path N cs k stop js' \<Longrightarrow> path N cs i stop (js @ js')"
proof (induction js arbitrary: i)
  case Nil
  then show ?case by simp
next
  case (Cons a js)
  have "i < k" using Cons.prems(1) path_lt_stop[of N cs i k "a # js" a] by simp
  moreover have "k \<le> stop" using Cons.prems(2) path_le_stop by blast
  ultimately show ?case using Cons by auto
qed

lemma chain_split:
  "chain N cs i js \<Longrightarrow> c \<in> set js \<Longrightarrow>
   path N cs i c (takeWhile (\<lambda>b. b \<noteq> c) js) \<and> chain N cs c (dropWhile (\<lambda>b. b \<noteq> c) js)"
proof (induction js arbitrary: i)
  case Nil
  then show ?case by simp
next
  case (Cons a js)
  show ?case
  proof (cases "a = c")
    case True
    then show ?thesis using Cons.prems by simp
  next
    case False
    then show ?thesis using Cons by auto
  qed
qed

lemma chain_cellChain: "chain N cs i js \<Longrightarrow> cellChain N cs i = js"
proof (induction js arbitrary: i)
  case Nil
  then show ?case by (simp add: cellChain.simps)
next
  case (Cons a js)
  then show ?case by (subst cellChain.simps) auto
qed

lemma chain_unique: "chain N cs i js \<Longrightarrow> chain N cs i js' \<Longrightarrow> js = js'"
  using chain_cellChain by metis

lemma CheckInvariants_loop_chain:
  "CheckInvariants_loop N cs cur \<longleftrightarrow> cur < N \<and> chain N cs cur (cellChain N cs cur)"
proof (induction N cs cur rule: CheckInvariants_loop.induct)
  case (1 N cs cur)
  show ?case
  proof (cases "Cell_Next cs cur \<le> cur \<or> N < Cell_Next cs cur \<or> Cell_Next cs cur = N")
    case True
    then show ?thesis
      apply (subst CheckInvariants_loop.simps)
      apply (subst cellChain.simps)
      using Cell_Next_gt[of cs cur] path_le_stop[of N cs "Cell_Next cs cur" N]
      by (auto simp: Cell_Next_def cellChain_stop)
  next
    case False
    then have "CheckInvariants_loop N cs cur = CheckInvariants_loop N cs (Cell_Next cs cur)"
      by (subst CheckInvariants_loop.simps) simp
    moreover have "cellSize (cs ! cur) \<noteq> 0" "cur < N" using False by (auto simp: Cell_Next_def)
    ultimately show ?thesis using 1 False
      by (subst cellChain.simps) auto
  qed
qed

lemma Cell_data_inj [simp]: "Cell_data i = Cell_data j \<longleftrightarrow> i = j"
  by (simp add: Cell_data_def)

lemma chain_Cons_notin: "path N cs i stop (a # js) \<Longrightarrow> a \<notin> set js"
  using path_distinct by fastforce

lemma Sweep_loop1_chain:
  assumes "chain N cs i js" "length cs = N"
  shows "\<exists>cs'. Sweep_loop1 N cs M alive i =
           Some (cs', M - Cell_data ` {j \<in> set js. isAllocated (cs ! j)},
                 alive \<or> (\<exists>j\<in>set js. isAllocated (cs ! j) \<and> Cell_data j \<in> M)) \<and>
         length cs' = N \<and>
         (\<forall>j. cs' ! j = (if j \<in> set js \<and> isAllocated (cs ! j) \<and> Cell_data j \<notin> M
                         then (cs ! j)\<lparr>isAllocated := False\<rparr> else cs ! j))"
  using assms
proof (induction js arbitrary: i cs M alive)
  case Nil
  then show ?case by (subst Sweep_loop1.simps) simp
next
  case (Cons a js)
  have a: "a = i" "i < N" "i \<noteq> N" "cellSize (cs ! i) \<noteq> 0" "chain N cs (Cell_Next cs i) js"
    using Cons.prems(1) by auto
  have notin: "i \<notin> set js" using chain_Cons_notin[OF Cons.prems(1)] a(1) by simp
  show ?case
  proof (cases "isAllocated (cs ! i)")
    case False
    have step: "Sweep_loop1 N cs M alive i = Sweep_loop1 N cs M alive (Cell_Next cs i)"
      using a False by (subst Sweep_loop1.simps) simp
    have sets: "{j \<in> set (a # js). isAllocated (cs ! j)} = {j \<in> set js. isAllocated (cs ! j)}"
      using a False by auto
    from Cons.IH[OF a(5) Cons.prems(2), of M alive] obtain cs' where
      r: "Sweep_loop1 N cs M alive (Cell_Next cs i) =
           Some (cs', M - Cell_data ` {j \<in> set js. isAllocated (cs ! j)},
                 alive \<or> (\<exists>j\<in>set js. isAllocated (cs ! j) \<and> Cell_data j \<in> M))"
        "length cs' = N"
        "\<forall>j. cs' ! j = (if j \<in> set js \<and> isAllocated (cs ! j) \<and> Cell_data j \<notin> M
                         then (cs ! j)\<lparr>isAllocated := False\<rparr> else cs ! j)"
      by blast
    have "\<forall>j. cs' ! j = (if j \<in> set (a # js) \<and> isAllocated (cs ! j) \<and> Cell_data j \<notin> M
                         then (cs ! j)\<lparr>isAllocated := False\<rparr> else cs ! j)"
      using r(3) a False by auto
    moreover have "(alive \<or> (\<exists>j\<in>set js. isAllocated (cs ! j) \<and> Cell_data j \<in> M)) =
                   (alive \<or> (\<exists>j\<in>set (a # js). isAllocated (cs ! j) \<and> Cell_data j \<in> M))"
      using a False by auto
    ultimately show ?thesis using step r(1,2) sets by simp
  next
    case True
    show ?thesis
    proof (cases "Cell_data i \<in> M")
      case marked: True
      have step: "Sweep_loop1 N cs M alive i = Sweep_loop1 N cs (M - {Cell_data i}) True (Cell_Next cs i)"
        using a True marked by (subst Sweep_loop1.simps) (simp add: TryResetMark_def)
      from Cons.IH[OF a(5) Cons.prems(2), of "M - {Cell_data i}" True] obtain cs' where
        r: "Sweep_loop1 N cs (M - {Cell_data i}) True (Cell_Next cs i) =
             Some (cs', M - {Cell_data i} - Cell_data ` {j \<in> set js. isAllocated (cs ! j)}, True)"
          "length cs' = N"
          "\<forall>j. cs' ! j = (if j \<in> set js \<and> isAllocated (cs ! j) \<and> Cell_data j \<notin> M - {Cell_data i}
                         then (cs ! j)\<lparr>isAllocated := False\<rparr> else cs ! j)"
        by auto
      have "\<forall>j. cs' ! j = (if j \<in> set (a # js) \<and> isAllocated (cs ! j) \<and> Cell_data j \<notin> M
                         then (cs ! j)\<lparr>isAllocated := False\<rparr> else cs ! j)"
        using r(3) a notin marked by auto
      moreover have "M - {Cell_data i} - Cell_data ` {j \<in> set js. isAllocated (cs ! j)} =
                     M - Cell_data ` {j \<in> set (a # js). isAllocated (cs ! j)}"
        using a True by auto
      moreover have "alive \<or> (\<exists>j\<in>set (a # js). isAllocated (cs ! j) \<and> Cell_data j \<in> M)"
        using a True marked by auto
      ultimately show ?thesis using step r(1,2) by simp
    next
      case unmarked: False
      let ?cs1 = "Cell_Deallocate cs i"
      have len1: "length ?cs1 = N" using Cons.prems(2) by (simp add: Cell_Deallocate_def)
      have nth1: "\<And>j. ?cs1 ! j = (if j = i then (cs ! i)\<lparr>isAllocated := False\<rparr> else cs ! j)"
        using a Cons.prems(2) by (simp add: Cell_Deallocate_def)
      have next1: "Cell_Next ?cs1 i = Cell_Next cs i"
        by (simp add: Cell_Next_def nth1)
      have chain1: "chain N ?cs1 (Cell_Next cs i) js"
        using a(5) by (rule path_cong) (simp add: nth1)
      have step: "Sweep_loop1 N cs M alive i = Sweep_loop1 N ?cs1 M alive (Cell_Next cs i)"
        using a True unmarked next1 by (subst Sweep_loop1.simps) (simp add: TryResetMark_def)
      from Cons.IH[OF chain1 len1, of M alive] obtain cs' where
        r: "Sweep_loop1 N ?cs1 M alive (Cell_Next cs i) =
             Some (cs', M - Cell_data ` {j \<in> set js. isAllocated (?cs1 ! j)},
                   alive \<or> (\<exists>j\<in>set js. isAllocated (?cs1 ! j) \<and> Cell_data j \<in> M))"
          "length cs' = N"
          "\<forall>j. cs' ! j = (if j \<in> set js \<and> isAllocated (?cs1 ! j) \<and> Cell_data j \<notin> M
                         then (?cs1 ! j)\<lparr>isAllocated := False\<rparr> else ?cs1 ! j)"
        by blast
      have same: "\<And>j. j \<in> set js \<Longrightarrow> ?cs1 ! j = cs ! j" using notin nth1 by auto
      have "\<forall>j. cs' ! j = (if j \<in> set (a # js) \<and> isAllocated (cs ! j) \<and> Cell_data j \<notin> M
                         then (cs ! j)\<lparr>isAllocated := False\<rparr> else cs ! j)"
        using r(3) a notin unmarked True nth1 by auto
      moreover have "M - Cell_data ` {j \<in> set js. isAllocated (?cs1 ! j)} =
                     M - Cell_data ` {j \<in> set (a # js). isAllocated (cs ! j)}"
        using a unmarked same by auto
      moreover have "(alive \<or> (\<exists>j\<in>set js. isAllocated (?cs1 ! j) \<and> Cell_data j \<in> M)) =
                     (alive \<or> (\<exists>j\<in>set (a # js). isAllocated (cs ! j) \<and> Cell_data j \<in> M))"
        using a unmarked same by auto
      ultimately show ?thesis using step r(1,2) by simp
    qed
  qed
qed

lemma unat_add32: "unat x + unat y < 2 ^ 32 \<Longrightarrow> unat (x + y) = unat x + unat y"
  for x y :: u32
  using unat_add_lem[of x y] by simp

lemma Cell_resize_same: "cs[b := (cs ! b)\<lparr>cellSize := cellSize (cs ! b)\<rparr>] = cs"
  by simp

lemma Sweep_absorb_chain:
  assumes "chain N cs b (b # js)" "length cs = N" "N < 2 ^ 32"
  shows "\<exists>s. Sweep_absorb N cs b = Some (cs[b := (cs ! b)\<lparr>cellSize := s\<rparr>]) \<and>
             s = cellSize (cs ! b) +
                 sum_list (map (\<lambda>j. cellSize (cs ! j)) (takeWhile (\<lambda>j. \<not> isAllocated (cs ! j)) js)) \<and>
             chain N (cs[b := (cs ! b)\<lparr>cellSize := s\<rparr>]) b
               (b # dropWhile (\<lambda>j. \<not> isAllocated (cs ! j)) js)"
  using assms
proof (induction js arbitrary: cs)
  case Nil
  then have "Cell_Next cs b = N" by simp
  then have "Sweep_absorb N cs b = Some cs" by (subst Sweep_absorb.simps) simp
  then show ?case using Nil.prems(1) by simp
next
  case (Cons a js)
  have b: "b < N" "cellSize (cs ! b) \<noteq> 0" "Cell_Next cs b = a" "a < N" "a \<noteq> N"
    "cellSize (cs ! a) \<noteq> 0" "chain N cs (Cell_Next cs a) js"
    using Cons.prems(1) by auto
  show ?case
  proof (cases "isAllocated (cs ! a)")
    case True
    then have "Sweep_absorb N cs b = Some cs" using b by (subst Sweep_absorb.simps) simp
    then show ?thesis using Cons.prems(1) True by simp
  next
    case False
    let ?s1 = "cellSize (cs ! b) + cellSize (cs ! a)"
    let ?cs1 = "cs[b := (cs ! b)\<lparr>cellSize := ?s1\<rparr>]"
    have step: "Sweep_absorb N cs b = Sweep_absorb N ?cs1 b"
      using b False by (subst Sweep_absorb.simps) simp
    have "Cell_Next cs a \<le> N" using b(7) path_le_stop by blast
    then have "unat (cellSize (cs ! b)) + unat (cellSize (cs ! a)) < 2 ^ 32"
      using b(3) Cons.prems(3) by (simp add: Cell_Next_def)
    then have us: "unat ?s1 = unat (cellSize (cs ! b)) + unat (cellSize (cs ! a))"
      by (rule unat_add32)
    have ba: "b < a" using b(2,3) Cell_Next_gt by blast
    have notin: "b \<notin> set js" "a \<notin> set js"
      using path_bounds[OF b(7)] Cell_Next_gt[OF b(6)] ba by fastforce+
    have same: "\<And>j. j \<in> set js \<Longrightarrow> ?cs1 ! j = cs ! j"
    proof -
      fix j assume "j \<in> set js"
      then have "j \<noteq> b" using notin by auto
      then show "?cs1 ! j = cs ! j" by simp
    qed
    have nthb: "?cs1 ! b = (cs ! b)\<lparr>cellSize := ?s1\<rparr>" using b(1) Cons.prems(2) by simp
    have next1: "Cell_Next ?cs1 b = Cell_Next cs a"
      using us b(3) by (simp add: Cell_Next_def nthb)
    have s1: "?s1 \<noteq> 0" using us b(2) unat_gt_0 by (metis add_gr_0 unat_0 less_numeral_extra(3))
    have "chain N ?cs1 (Cell_Next cs a) js"
      using b(7) by (rule path_cong) (simp add: same)
    then have chain1: "chain N ?cs1 b (b # js)"
      using b(1) next1 s1 by (simp add: nthb)
    have len1: "length ?cs1 = N" using Cons.prems(2) by simp
    from Cons.IH[OF chain1 len1 Cons.prems(3)] obtain s where
      r: "Sweep_absorb N ?cs1 b = Some (?cs1[b := (?cs1 ! b)\<lparr>cellSize := s\<rparr>])"
         "s = cellSize (?cs1 ! b) +
              sum_list (map (\<lambda>j. cellSize (?cs1 ! j)) (takeWhile (\<lambda>j. \<not> isAllocated (?cs1 ! j)) js))"
         "chain N (?cs1[b := (?cs1 ! b)\<lparr>cellSize := s\<rparr>]) b
               (b # dropWhile (\<lambda>j. \<not> isAllocated (?cs1 ! j)) js)"
      by blast
    have upd: "?cs1[b := (?cs1 ! b)\<lparr>cellSize := s\<rparr>] = cs[b := (cs ! b)\<lparr>cellSize := s\<rparr>]"
      by (simp add: nthb)
    have tw: "takeWhile (\<lambda>j. \<not> isAllocated (?cs1 ! j)) js = takeWhile (\<lambda>j. \<not> isAllocated (cs ! j)) js"
      by (rule takeWhile_cong) (simp_all add: same)
    have dw: "dropWhile (\<lambda>j. \<not> isAllocated (?cs1 ! j)) js = dropWhile (\<lambda>j. \<not> isAllocated (cs ! j)) js"
      by (rule dropWhile_cong) (simp_all add: same)
    have mp: "map (\<lambda>j. cellSize (?cs1 ! j)) (takeWhile (\<lambda>j. \<not> isAllocated (cs ! j)) js) =
              map (\<lambda>j. cellSize (cs ! j)) (takeWhile (\<lambda>j. \<not> isAllocated (cs ! j)) js)"
      by (rule map_cong) (use same set_takeWhileD in fastforce)+
    have "s = cellSize (cs ! b) +
                 sum_list (map (\<lambda>j. cellSize (cs ! j)) (takeWhile (\<lambda>j. \<not> isAllocated (cs ! j)) (a # js)))"
      using r(2) False by (simp add: tw mp nthb add.assoc)
    moreover have "chain N (cs[b := (cs ! b)\<lparr>cellSize := s\<rparr>]) b
               (b # dropWhile (\<lambda>j. \<not> isAllocated (cs ! j)) (a # js))"
      using r(3) False unfolding upd dw by simp
    ultimately show ?thesis using step r(1) upd by simp
  qed
qed

lemma coalesce_free:
  "\<not> isAllocated a \<Longrightarrow>
   coalesce (a # xs) =
     a\<lparr>cellSize := cellSize a + sum_list (map cellSize (takeWhile (\<lambda>c. \<not> isAllocated c) xs))\<rparr> #
     coalesce (dropWhile (\<lambda>c. \<not> isAllocated c) xs)"
proof (induction xs arbitrary: a)
  case Nil
  then show ?case by simp
next
  case (Cons b r)
  show ?case
  proof (cases "isAllocated b")
    case True
    then show ?thesis using Cons.prems by simp
  next
    case False
    then show ?thesis using Cons.prems Cons.IH[of "a\<lparr>cellSize := cellSize a + cellSize b\<rparr>"]
      by (simp add: add.assoc)
  qed
qed

lemma coalesce_alloc: "isAllocated a \<Longrightarrow> coalesce (a # xs) = a # coalesce xs"
  by (cases xs) auto

lemma path_Next_le: "path N cs i stop js \<Longrightarrow> j \<in> set js \<Longrightarrow> Cell_Next cs j \<le> stop"
proof (induction js arbitrary: i)
  case Nil
  then show ?case by simp
next
  case (Cons a js)
  then show ?case using path_le_stop[of N cs "Cell_Next cs i" stop js] by auto
qed

lemma chain_span:
  "chain N cs i js \<Longrightarrow> \<exists>k. path N cs i k (takeWhile P js) \<and> chain N cs k (dropWhile P js)"
proof (induction js arbitrary: i)
  case Nil
  then show ?case by simp
next
  case (Cons a js)
  show ?case
  proof (cases "P a")
    case True
    from Cons.prems have c: "chain N cs (Cell_Next cs i) js" by simp
    from Cons.IH[OF c] obtain k where
      k: "path N cs (Cell_Next cs i) k (takeWhile P js)" "chain N cs k (dropWhile P js)" by blast
    have "i < k" using path_le_stop[OF k(1)] Cell_Next_gt[of cs i] Cons.prems by auto
    then show ?thesis using True k Cons.prems by auto
  next
    case False
    then show ?thesis using Cons.prems by auto
  qed
qed

lemma path_start_unique: "path N cs i stop js \<Longrightarrow> path N cs' i' stop js \<Longrightarrow> i = i'"
  by (cases js) auto

lemma Sweep_loop2_chain:
  assumes "chain N cs i js" "length cs = N" "N < 2 ^ 32" "m < i"
  shows "\<exists>cs' js'. Sweep_loop2 N cs m i = Some (cs', maxFree cs' m js') \<and>
           length cs' = N \<and> chain N cs' i js' \<and>
           map ((!) cs') js' = coalesce (map ((!) cs) js) \<and>
           (\<forall>j<i. cs' ! j = cs ! j) \<and>
           (\<forall>j. isAllocated (cs' ! j) = isAllocated (cs ! j)) \<and>
           set js' \<subseteq> set js \<and>
           (\<forall>j\<in>set js. isAllocated (cs ! j) \<longrightarrow> j \<in> set js' \<and> cs' ! j = cs ! j) \<and>
           (\<forall>j\<in>set js. \<exists>f\<in>set js'. f \<le> j \<and> Cell_Next cs j \<le> Cell_Next cs' f \<and>
                           isAllocated (cs ! f) = isAllocated (cs ! j))"
  using assms
proof (induction "length js" arbitrary: js cs m i rule: less_induct)
  case less
  show ?case
  proof (cases js)
    case Nil
    then have "i = N" using less.prems(1) by simp
    then have "Sweep_loop2 N cs m i = Some (cs, maxFree cs m [])"
      by (subst Sweep_loop2.simps) simp
    then show ?thesis using Nil less.prems by (intro exI[of _ cs] exI[of _ "[]"]) simp
  next
    case (Cons a js0)
    have a: "a = i" "i < N" "i \<noteq> N" "cellSize (cs ! i) \<noteq> 0" "chain N cs (Cell_Next cs i) js0"
      using less.prems(1) Cons by auto
    have ci: "chain N cs i (i # js0)" using less.prems(1) Cons a by simp
    have inext: "i < Cell_Next cs i" using a(4) by (rule Cell_Next_gt)
    have notin: "i \<notin> set js0" using path_bounds[OF a(5)] inext by fastforce
    show ?thesis
    proof (cases "isAllocated (cs ! i)")
      case True
      have step: "Sweep_loop2 N cs m i = Sweep_loop2 N cs m (Cell_Next cs i)"
        using a True by (subst Sweep_loop2.simps) simp
      have mlt: "m < Cell_Next cs i" using less.prems(4) inext by simp
      have "length js0 < length js" using Cons by simp
      from less.hyps[OF this a(5) less.prems(2,3) mlt]
      obtain cs' js' where
        r: "Sweep_loop2 N cs m (Cell_Next cs i) = Some (cs', maxFree cs' m js')"
           "length cs' = N" "chain N cs' (Cell_Next cs i) js'"
           "map ((!) cs') js' = coalesce (map ((!) cs) js0)"
           "\<forall>j<Cell_Next cs i. cs' ! j = cs ! j"
           "\<forall>j. isAllocated (cs' ! j) = isAllocated (cs ! j)"
           "set js' \<subseteq> set js0"
           "\<forall>j\<in>set js0. isAllocated (cs ! j) \<longrightarrow> j \<in> set js' \<and> cs' ! j = cs ! j"
           "\<forall>j\<in>set js0. \<exists>f\<in>set js'. f \<le> j \<and> Cell_Next cs j \<le> Cell_Next cs' f \<and>
                           isAllocated (cs ! f) = isAllocated (cs ! j)"
        by blast
      have same: "cs' ! i = cs ! i" using r(5) inext by simp
      have c1: "Sweep_loop2 N cs m i = Some (cs', maxFree cs' m (i # js'))"
        using step r(1) same True by simp
      have c2: "chain N cs' i (i # js')"
        using r(3) a same by (simp add: Cell_Next_def)
      have c3: "map ((!) cs') (i # js') = coalesce (map ((!) cs) js)"
        using r(4) same True Cons a by (simp add: coalesce_alloc)
      have c4: "\<forall>j<i. cs' ! j = cs ! j" using r(5) inext by simp
      have c5: "set (i # js') \<subseteq> set js" using r(7) Cons a by auto
      have c6: "\<forall>j\<in>set js. isAllocated (cs ! j) \<longrightarrow> j \<in> set (i # js') \<and> cs' ! j = cs ! j"
        using r(8) same Cons a by auto
      have c7: "\<forall>j\<in>set js. \<exists>f\<in>set (i # js'). f \<le> j \<and> Cell_Next cs j \<le> Cell_Next cs' f \<and>
                           isAllocated (cs ! f) = isAllocated (cs ! j)"
      proof
        fix j assume "j \<in> set js"
        then consider "j = i" | "j \<in> set js0" using Cons a by auto
        then show "\<exists>f\<in>set (i # js'). f \<le> j \<and> Cell_Next cs j \<le> Cell_Next cs' f \<and>
                           isAllocated (cs ! f) = isAllocated (cs ! j)"
        proof cases
          case 1
          then show ?thesis using same by (auto simp: Cell_Next_def)
        next
          case 2
          then show ?thesis using r(9) by auto
        qed
      qed
      show ?thesis
        using c1 r(2) c2 c3 c4 r(6) c5 c6 c7 by blast
    next
      case False
      from Sweep_absorb_chain[OF ci less.prems(2,3)] obtain s where
        ab: "Sweep_absorb N cs i = Some (cs[i := (cs ! i)\<lparr>cellSize := s\<rparr>])"
            "s = cellSize (cs ! i) +
                 sum_list (map (\<lambda>j. cellSize (cs ! j)) (takeWhile (\<lambda>j. \<not> isAllocated (cs ! j)) js0))"
            "chain N (cs[i := (cs ! i)\<lparr>cellSize := s\<rparr>]) i
               (i # dropWhile (\<lambda>j. \<not> isAllocated (cs ! j)) js0)"
        by blast
      define cs1 where "cs1 = cs[i := (cs ! i)\<lparr>cellSize := s\<rparr>]"
      define rest where "rest = dropWhile (\<lambda>j. \<not> isAllocated (cs ! j)) js0"
      define run where "run = takeWhile (\<lambda>j. \<not> isAllocated (cs ! j)) js0"
      define m1 where "m1 = (if cellSize (cs1 ! m) < cellSize (cs1 ! i) then i else m)"
      define i1 where "i1 = Cell_Next cs1 i"
      have len1: "length cs1 = N" using less.prems(2) by (simp add: cs1_def)
      have nthi: "cs1 ! i = (cs ! i)\<lparr>cellSize := s\<rparr>"
        using a(2) less.prems(2) by (simp add: cs1_def)
      have nth1: "\<And>j. j \<noteq> i \<Longrightarrow> cs1 ! j = cs ! j" by (simp add: cs1_def)
      have flags1: "\<And>j. isAllocated (cs1 ! j) = isAllocated (cs ! j)"
        using nthi nth1 by (metis Cell.select_convs(1) Cell.surjective Cell.update_convs(2))
      have ch1: "chain N cs1 i (i # rest)" using ab(3) by (simp add: cs1_def rest_def)
      then have ch1': "chain N cs1 i1 rest" "cellSize (cs1 ! i) \<noteq> 0"
        by (simp_all add: i1_def)
      have ii1: "i < i1" unfolding i1_def using ch1'(2) by (rule Cell_Next_gt)
      have m1: "m1 < i1" using less.prems(4) ii1 by (simp add: m1_def)
      have step: "Sweep_loop2 N cs m i = Sweep_loop2 N cs1 m1 i1"
        using a False ab(1)
        by (subst Sweep_loop2.simps) (simp add: cs1_def m1_def i1_def)
      have "length rest < length js"
        using Cons length_dropWhile_le[of "\<lambda>j. \<not> isAllocated (cs ! j)" js0]
        by (simp add: rest_def)
      from less.hyps[OF this ch1'(1) len1 less.prems(3) m1]
      obtain cs' js' where
        r: "Sweep_loop2 N cs1 m1 i1 = Some (cs', maxFree cs' m1 js')"
           "length cs' = N" "chain N cs' i1 js'"
           "map ((!) cs') js' = coalesce (map ((!) cs1) rest)"
           "\<forall>j<i1. cs' ! j = cs1 ! j"
           "\<forall>j. isAllocated (cs' ! j) = isAllocated (cs1 ! j)"
           "set js' \<subseteq> set rest"
           "\<forall>j\<in>set rest. isAllocated (cs1 ! j) \<longrightarrow> j \<in> set js' \<and> cs' ! j = cs1 ! j"
           "\<forall>j\<in>set rest. \<exists>f\<in>set js'. f \<le> j \<and> Cell_Next cs1 j \<le> Cell_Next cs' f \<and>
                           isAllocated (cs1 ! f) = isAllocated (cs1 ! j)"
        by blast
      have restsub: "set rest \<subseteq> set js0" unfolding rest_def by (meson set_dropWhileD subsetI)
      have restnoti: "\<And>j. j \<in> set rest \<Longrightarrow> j \<noteq> i" using restsub notin by auto
      have samei: "cs' ! i = cs1 ! i" using r(5) ii1 by simp
      have samem: "cs' ! m = cs1 ! m" using r(5) ii1 less.prems(4) by simp
      have c1: "Sweep_loop2 N cs m i = Some (cs', maxFree cs' m (i # js'))"
        using step r(1) samei samem False flags1[of i] by (simp add: m1_def)
      have c2: "chain N cs' i (i # js')"
        using r(3) a(2,3) ch1'(2) samei by (simp add: Cell_Next_def i1_def)
      have maprest: "map ((!) cs1) rest = map ((!) cs) rest"
        by (rule map_cong) (use restnoti nth1 in auto)
      have maprun: "map (\<lambda>j. cellSize (cs ! j)) run = map cellSize (takeWhile (\<lambda>c. \<not> isAllocated c) (map ((!) cs) js0))"
        by (simp add: run_def takeWhile_map comp_def)
      have c3: "map ((!) cs') (i # js') = coalesce (map ((!) cs) js)"
        using r(4) samei nthi False ab(2) Cons a(1) coalesce_free[of "cs ! i" "map ((!) cs) js0"]
        by (simp add: maprest[unfolded rest_def] maprun[unfolded run_def] rest_def dropWhile_map comp_def)
      have c4: "\<forall>j<i. cs' ! j = cs ! j" using r(5) ii1 nth1 by simp
      have c5: "\<forall>j. isAllocated (cs' ! j) = isAllocated (cs ! j)" using r(6) flags1 by simp
      have c6: "set (i # js') \<subseteq> set js" using r(7) restsub Cons a by auto
      have c7: "\<forall>j\<in>set js. isAllocated (cs ! j) \<longrightarrow> j \<in> set (i # js') \<and> cs' ! j = cs ! j"
      proof (intro ballI impI)
        fix j assume j: "j \<in> set js" "isAllocated (cs ! j)"
        then have "j \<in> set js0" using False Cons a by auto
        then have "j \<in> set rest" using j(2) unfolding rest_def
          by (metis (mono_tags, lifting) set_takeWhileD takeWhile_dropWhile_id set_append UnE)
        then show "j \<in> set (i # js') \<and> cs' ! j = cs ! j"
          using r(8) flags1 j(2) nth1 restnoti by auto
      qed
      from chain_span[OF a(5), of "\<lambda>j. \<not> isAllocated (cs ! j)"] obtain k where
        k: "path N cs (Cell_Next cs i) k run" "chain N cs k rest"
        unfolding run_def rest_def by blast
      have "chain N cs1 k rest" using k(2) by (rule path_cong) (use restnoti nth1 in auto)
      then have ki1: "k = i1" using ch1'(1) path_start_unique by blast
      have nexti: "Cell_Next cs' i = i1" using samei by (simp add: Cell_Next_def i1_def)
      have c8: "\<forall>j\<in>set js. \<exists>f\<in>set (i # js'). f \<le> j \<and> Cell_Next cs j \<le> Cell_Next cs' f \<and>
                           isAllocated (cs ! f) = isAllocated (cs ! j)"
      proof
        fix j assume "j \<in> set js"
        then consider "j = i" | "j \<in> set run" | "j \<in> set rest"
          using Cons a unfolding run_def rest_def
          by (metis (mono_tags, lifting) set_ConsD takeWhile_dropWhile_id set_append UnE)
        then show "\<exists>f\<in>set (i # js'). f \<le> j \<and> Cell_Next cs j \<le> Cell_Next cs' f \<and>
                           isAllocated (cs ! f) = isAllocated (cs ! j)"
        proof cases
          case 1
          have "Cell_Next cs i \<le> k" using k(1) by (rule path_le_stop)
          then show ?thesis using 1 nexti ki1 by auto
        next
          case 2
          have "Cell_Next cs j \<le> k" using k(1) 2 by (rule path_Next_le)
          moreover have "i \<le> j" using path_bounds[OF k(1) 2] inext by simp
          moreover have "\<not> isAllocated (cs ! j)" using set_takeWhileD[OF 2[unfolded run_def]] by simp
          ultimately show ?thesis using nexti ki1 False by auto
        next
          case 3
          from r(9) 3 obtain f where
            f: "f \<in> set js'" "f \<le> j" "Cell_Next cs1 j \<le> Cell_Next cs' f"
               "isAllocated (cs1 ! f) = isAllocated (cs1 ! j)" by blast
          have "Cell_Next cs1 j = Cell_Next cs j" using restnoti[OF 3] nth1 by (simp add: Cell_Next_def)
          then show ?thesis using f flags1 by auto
        qed
      qed
      show ?thesis
        using c1 r(2) c2 c3 c4 c5 c6 c7 c8 by blast
    qed
  qed
qed

lemma maxFree_append: "maxFree cs m (xs @ ys) = maxFree cs (maxFree cs m xs) ys"
  by (induction xs arbitrary: m) auto

lemma maxFree_in: "maxFree cs m bs = m \<or> maxFree cs m bs \<in> set bs"
proof (induction bs arbitrary: m)
  case Nil
  then show ?case by simp
next
  case (Cons b bs)
  show ?case
  proof (cases "\<not> isAllocated (cs ! b) \<and> cellSize (cs ! m) < cellSize (cs ! b)")
    case True
    then show ?thesis using Cons.IH[of b] by auto
  next
    case False
    then show ?thesis using Cons.IH[of m] by auto
  qed
qed

lemma maxFree_free: "maxFree cs m bs = m \<or> \<not> isAllocated (cs ! maxFree cs m bs)"
proof (induction bs arbitrary: m)
  case Nil
  then show ?case by simp
next
  case (Cons b bs)
  show ?case
  proof (cases "\<not> isAllocated (cs ! b) \<and> cellSize (cs ! m) < cellSize (cs ! b)")
    case True
    then show ?thesis using Cons.IH[of b] by auto
  next
    case False
    then show ?thesis using Cons.IH[of m] by auto
  qed
qed

lemma maxFree_first_max:
  "(maxFree cs m bs = m \<and> (\<forall>x\<in>set bs. \<not> isAllocated (cs ! x) \<longrightarrow> cellSize (cs ! x) \<le> cellSize (cs ! m))) \<or>
   (\<exists>pre post. bs = pre @ maxFree cs m bs # post \<and> \<not> isAllocated (cs ! maxFree cs m bs) \<and>
      cellSize (cs ! m) < cellSize (cs ! maxFree cs m bs) \<and>
      (\<forall>x\<in>set pre. \<not> isAllocated (cs ! x) \<longrightarrow> cellSize (cs ! x) < cellSize (cs ! maxFree cs m bs)) \<and>
      (\<forall>x\<in>set post. \<not> isAllocated (cs ! x) \<longrightarrow> cellSize (cs ! x) \<le> cellSize (cs ! maxFree cs m bs)))"
  (is "?A m bs \<or> ?B m bs")
proof (induction bs arbitrary: m)
  case Nil
  then show ?case by simp
next
  case (Cons b bs)
  define m' where "m' = (if \<not> isAllocated (cs ! b) \<and> cellSize (cs ! m) < cellSize (cs ! b) then b else m)"
  have r: "maxFree cs m (b # bs) = maxFree cs m' bs" by (simp add: m'_def)
  define r0 where "r0 = maxFree cs m' bs"
  have r': "maxFree cs m (b # bs) = r0" using r r0_def by simp
  from Cons.IH[of m'] consider (A) "?A m' bs" | (B) "?B m' bs" by blast
  then show ?case
  proof cases
    case A
    then have A': "r0 = m'" "\<forall>x\<in>set bs. \<not> isAllocated (cs ! x) \<longrightarrow> cellSize (cs ! x) \<le> cellSize (cs ! m')"
      by (simp_all add: r0_def)
    show ?thesis
    proof (cases "m' = m")
      case True
      then have "\<not> isAllocated (cs ! b) \<longrightarrow> cellSize (cs ! b) \<le> cellSize (cs ! m)"
        by (auto simp: m'_def split: if_splits)
      then have "?A m (b # bs)" unfolding r' using A' True by simp
      then show ?thesis ..
    next
      case False
      then have b: "m' = b" "\<not> isAllocated (cs ! b)" "cellSize (cs ! m) < cellSize (cs ! b)"
        by (auto simp: m'_def split: if_splits)
      have "?B m (b # bs)" unfolding r'
        apply (rule exI[of _ "[]"])
        apply (rule exI[of _ bs])
        using A' b by simp
      then show ?thesis ..
    qed
  next
    case B
    then obtain pre post where
      pp: "bs = pre @ r0 # post" "\<not> isAllocated (cs ! r0)"
          "cellSize (cs ! m') < cellSize (cs ! r0)"
          "\<forall>x\<in>set pre. \<not> isAllocated (cs ! x) \<longrightarrow> cellSize (cs ! x) < cellSize (cs ! r0)"
          "\<forall>x\<in>set post. \<not> isAllocated (cs ! x) \<longrightarrow> cellSize (cs ! x) \<le> cellSize (cs ! r0)"
      unfolding r0_def by blast
    have lt: "cellSize (cs ! m) < cellSize (cs ! r0)"
      using pp(3) by (auto simp: m'_def split: if_splits)
    have bl: "\<not> isAllocated (cs ! b) \<longrightarrow> cellSize (cs ! b) < cellSize (cs ! r0)"
      using pp(3) by (auto simp: m'_def split: if_splits)
    have "?B m (b # bs)" unfolding r'
      apply (rule exI[of _ "b # pre"])
      apply (rule exI[of _ post])
      using pp bl lt by simp
    then show ?thesis ..
  qed
qed

lemma find_None_maxFree_small:
  "cellSize (cs ! m) < need \<or> cellSize (cs ! m) = 0 \<Longrightarrow> find (qualifies cs need) bs = None \<Longrightarrow>
   cellSize (cs ! maxFree cs m bs) < need \<or> cellSize (cs ! maxFree cs m bs) = 0"
proof (induction bs arbitrary: m)
  case Nil
  then show ?case by simp
next
  case (Cons b bs)
  have nq: "\<not> qualifies cs need b" "find (qualifies cs need) bs = None"
    using Cons.prems(2) by (auto split: if_splits)
  show ?case
  proof (cases "\<not> isAllocated (cs ! b) \<and> cellSize (cs ! m) < cellSize (cs ! b)")
    case True
    then have "cellSize (cs ! b) < need" using nq(1) by (auto simp: qualifies_def)
    then show ?thesis using True Cons.IH[of b] nq(2) by simp
  next
    case False
    then show ?thesis using Cons.IH[of m] Cons.prems(1) nq(2) by auto
  qed
qed

lemma UpdateCurBlock_loop_path:
  assumes "path N cs i stop bs" "cellSize (cs ! m) < need \<or> cellSize (cs ! m) = 0"
  shows "UpdateCurBlock_loop N cs need stop m i =
           Some (case find (qualifies cs need) bs of
                   Some b \<Rightarrow> Found b
                 | None \<Rightarrow> Exhausted (maxFree cs m bs))"
  using assms
proof (induction bs arbitrary: i m)
  case Nil
  then show ?case by (subst UpdateCurBlock_loop.simps) simp
next
  case (Cons a bs)
  have a: "a = i" "i \<noteq> stop" "i < N" "cellSize (cs ! i) \<noteq> 0" "path N cs (Cell_Next cs i) stop bs"
    using Cons.prems(1) by auto
  show ?case
  proof (cases "qualifies cs need i")
    case True
    have "cellSize (cs ! m) < cellSize (cs ! i)"
      using Cons.prems(2) True a(4) by (auto simp: qualifies_def word_neq_0_conv)
    then have "UpdateCurBlock_loop N cs need stop m i = Some (Found i)"
      using a True by (subst UpdateCurBlock_loop.simps) (simp add: qualifies_def)
    then show ?thesis using True a by simp
  next
    case nq: False
    show ?thesis
    proof (cases "\<not> isAllocated (cs ! i) \<and> cellSize (cs ! m) < cellSize (cs ! i)")
      case True
      then have small: "cellSize (cs ! i) < need" using nq by (auto simp: qualifies_def)
      then have nle: "\<not> need \<le> cellSize (cs ! i)" by simp
      have mf: "maxFree cs m (i # bs) = maxFree cs i bs" using True by simp
      have fd: "find (qualifies cs need) (i # bs) = find (qualifies cs need) bs"
        using nq by simp
      have "UpdateCurBlock_loop N cs need stop m i =
            UpdateCurBlock_loop N cs need stop i (Cell_Next cs i)"
        using a True nle by (subst UpdateCurBlock_loop.simps) simp
      also have "\<dots> = Some (case find (qualifies cs need) bs of
                   Some b \<Rightarrow> Found b
                 | None \<Rightarrow> Exhausted (maxFree cs i bs))"
        by (rule Cons.IH[OF a(5)]) (use small in simp)
      finally show ?thesis by (simp only: a(1) mf fd)
    next
      case False
      have mf: "maxFree cs m (i # bs) = maxFree cs m bs" using False by auto
      have fd: "find (qualifies cs need) (i # bs) = find (qualifies cs need) bs"
        using nq by simp
      have "UpdateCurBlock_loop N cs need stop m i =
            UpdateCurBlock_loop N cs need stop m (Cell_Next cs i)"
        using a False by (subst UpdateCurBlock_loop.simps) auto
      also have "\<dots> = Some (case find (qualifies cs need) bs of
                   Some b \<Rightarrow> Found b
                 | None \<Rightarrow> Exhausted (maxFree cs m bs))"
        by (rule Cons.IH[OF a(5) Cons.prems(2)])
      finally show ?thesis by (simp only: a(1) mf fd)
    qed
  qed
qed

lemma wf_pageI:
  assumes "valid_CELL_COUNT N" "length (cells p) = N" "cellSize (cells p ! 0) = 0"
    "chain N (cells p) 1 js" "curBlock p = 0 \<or> curBlock p \<in> set js"
  shows "wf_page N p"
proof -
  have cc: "cellChain N (cells p) 1 = js" using assms(4) by (rule chain_cellChain)
  have "curBlock p < N" using assms(1,5) path_bounds[OF assms(4)]
    by (auto simp: valid_CELL_COUNT_def)
  moreover have "1 < N" using assms(1) by (simp add: valid_CELL_COUNT_def)
  ultimately have "CheckInvariants N p"
    using assms(4) cc by (simp add: CheckInvariants_def CheckInvariants_loop_chain)
  then show ?thesis using assms cc by (simp add: wf_page_def)
qed

lemma wf_pageD:
  assumes "wf_page N p"
  shows "valid_CELL_COUNT N" "length (cells p) = N" "cellSize (cells p ! 0) = 0"
    "chain N (cells p) 1 (cellChain N (cells p) 1)"
    "curBlock p = 0 \<or> curBlock p \<in> set (cellChain N (cells p) 1)"
    "2 \<le> N" "N < 2 ^ 32"
  using assms
  by (auto simp: wf_page_def CheckInvariants_def CheckInvariants_loop_chain valid_CELL_COUNT_def
           split: if_splits)

lemma chain_from_1: "chain N cs 1 js \<Longrightarrow> 2 \<le> N \<Longrightarrow> 1 \<in> set js"
  by (cases js) auto

lemma MediumPage_new_wf:
  assumes "valid_CELL_COUNT N" "length raw = N"
  shows "wf_page N (MediumPage_new N raw c)"
    and "cellChain N (cells (MediumPage_new N raw c)) 1 = [1]"
    and "unat (cellSize (cells (MediumPage_new N raw c) ! 1)) = N - 1"
proof -
  let ?p = "MediumPage_new N raw c"
  have N: "2 \<le> N" "N < 2 ^ 32" using assms(1) by (simp_all add: valid_CELL_COUNT_def)
  have u: "unat (word_of_nat (N - 1) :: u32) = N - 1"
    using N by (subst unat_of_nat) simp
  have c0: "cells ?p ! 0 = Cell_new 0" and c1: "cells ?p ! 1 = Cell_new (of_nat (N - 1))"
    using N assms(2) by (simp_all add: MediumPage_new_def)
  show s1: "unat (cellSize (cells ?p ! 1)) = N - 1" using c1 u by (simp add: Cell_new_def)
  then have "cellSize (cells ?p ! 1) \<noteq> 0" using N by auto
  then have ch: "chain N (cells ?p) 1 [1]" using s1 N by (simp add: Cell_Next_def)
  then show "cellChain N (cells ?p) 1 = [1]" by (rule chain_cellChain)
  have len: "length (cells ?p) = N" by (simp add: MediumPage_new_def assms(2))
  have cur: "curBlock ?p = 0" by (simp add: MediumPage_new_def)
  have s0: "cellSize (cells ?p ! 0) = 0" using c0 by (simp add: Cell_new_def)
  show "wf_page N ?p"
    by (rule wf_pageI[OF assms(1) len s0 ch]) (simp add: cur)
qed

lemma find_append:
  "find P (xs @ ys) = (case find P xs of None \<Rightarrow> find P ys | Some x \<Rightarrow> Some x)"
  by (induction xs) auto

lemma UpdateCurBlock_eq:
  assumes "wf_page N p"
  shows "UpdateCurBlock N p need =
           Some (p\<lparr>curBlock := (case find (qualifies (cells p) need) (scanOrder N p) of
                                  Some b \<Rightarrow> b
                                | None \<Rightarrow> maxFree (cells p) 0 (scanOrder N p))\<rparr>)"
    and "set (scanOrder N p) = set (cellChain N (cells p) 1)"
proof -
  define cs where "cs = cells p"
  define js where "js = cellChain N cs 1"
  define start where "start = (if curBlock p = 0 then 1 else curBlock p)"
  define p1 where "p1 = (if curBlock p = 0 then p\<lparr>curBlock := 1\<rparr> else p)"
  note d = wf_pageD[OF assms, folded cs_def, folded js_def]
  have st: "start \<in> set js" using d(5) chain_from_1[OF d(4) d(6)] by (auto simp: start_def)
  from chain_split[OF d(4) st] have
    sp: "path N cs 1 start (takeWhile (\<lambda>b. b \<noteq> start) js)"
        "chain N cs start (dropWhile (\<lambda>b. b \<noteq> start) js)" by simp_all
  have fwd: "cellChain N cs start = dropWhile (\<lambda>b. b \<noteq> start) js"
    using sp(2) by (rule chain_cellChain)
  have so: "scanOrder N p = dropWhile (\<lambda>b. b \<noteq> start) js @ takeWhile (\<lambda>b. b \<noteq> start) js"
    unfolding scanOrder_def Let_def start_def[symmetric] cs_def[symmetric] js_def[symmetric] fwd ..
  show "set (scanOrder N p) = set (cellChain N (cells p) 1)"
    unfolding so cs_def[symmetric] js_def[symmetric]
    by (metis set_append sup_commute takeWhile_dropWhile_id)
  have p1: "cells p1 = cs" "curBlock p1 = start" by (simp_all add: p1_def cs_def start_def)
  have J0: "cellSize (cs ! 0) < need \<or> cellSize (cs ! 0) = 0" using d(3) by simp
  let ?q = "qualifies cs need"
  let ?fwd = "dropWhile (\<lambda>b. b \<noteq> start) js"
  let ?wrap = "takeWhile (\<lambda>b. b \<noteq> start) js"
  have l1: "UpdateCurBlock_loop N cs need N 0 start =
              Some (case find ?q ?fwd of Some b \<Rightarrow> Found b | None \<Rightarrow> Exhausted (maxFree cs 0 ?fwd))"
    using sp(2) J0 by (rule UpdateCurBlock_loop_path)
  show "UpdateCurBlock N p need =
           Some (p\<lparr>curBlock := (case find (qualifies (cells p) need) (scanOrder N p) of
                                  Some b \<Rightarrow> b
                                | None \<Rightarrow> maxFree (cells p) 0 (scanOrder N p))\<rparr>)"
  proof (cases "find ?q ?fwd")
    case (Some b)
    then have "find ?q (scanOrder N p) = Some b" by (simp add: so find_append)
    moreover have "UpdateCurBlock N p need = Some (p1\<lparr>curBlock := b\<rparr>)"
      using l1 Some by (simp add: UpdateCurBlock_def Let_def p1_def[symmetric] p1)
    moreover have "p1\<lparr>curBlock := b\<rparr> = p\<lparr>curBlock := b\<rparr>" by (simp add: p1_def)
    ultimately show ?thesis by (simp add: cs_def)
  next
    case None
    define m1 where "m1 = maxFree cs 0 ?fwd"
    have J1: "cellSize (cs ! m1) < need \<or> cellSize (cs ! m1) = 0"
      unfolding m1_def using J0 None by (rule find_None_maxFree_small)
    have l2: "UpdateCurBlock_loop N cs need start m1 1 =
              Some (case find ?q ?wrap of Some b \<Rightarrow> Found b | None \<Rightarrow> Exhausted (maxFree cs m1 ?wrap))"
      using sp(1) J1 by (rule UpdateCurBlock_loop_path)
    have fa: "find ?q (scanOrder N p) = find ?q ?wrap" using None by (simp add: so find_append)
    have ma: "maxFree cs 0 (scanOrder N p) = maxFree cs m1 ?wrap"
      by (simp add: so maxFree_append m1_def)
    have "UpdateCurBlock N p need =
            Some (p1\<lparr>curBlock := (case find ?q ?wrap of Some b \<Rightarrow> b | None \<Rightarrow> maxFree cs m1 ?wrap)\<rparr>)"
      using l1 None l2
      by (simp add: UpdateCurBlock_def Let_def p1_def[symmetric] p1 m1_def[symmetric] split: option.splits)
    moreover have "\<And>b. p1\<lparr>curBlock := b\<rparr> = p\<lparr>curBlock := b\<rparr>" by (simp add: p1_def)
    ultimately show ?thesis unfolding cs_def[symmetric] fa ma by simp
  qed
qed

lemma wf_page_eval:
  "valid_CELL_COUNT N \<Longrightarrow>
   length (cells p) = N \<and> cellSize (cells p ! 0) = 0 \<and> CheckInvariants N p \<and>
   (curBlock p = 0 \<or> curBlock p \<in> set (cellChain N (cells p) 1)) \<Longrightarrow>
   wf_page N p"
  by (simp add: wf_page_def)

lemma find_first:
  "\<forall>x\<in>set pre. \<not> P x \<Longrightarrow> P b \<Longrightarrow> find P (pre @ b # post) = Some b"
  by (induction pre) auto

lemma find_None_all: "\<forall>x\<in>set xs. \<not> P x \<Longrightarrow> find P xs = None"
  by (induction xs) auto

lemma Cell_TryAllocate_fail:
  "isAllocated (cs ! i) \<or> cellSize (cs ! i) < need \<Longrightarrow> Cell_TryAllocate cs i need = (cs, None)"
  by (simp add: Cell_TryAllocate_def)

lemma not_qualifies_fail:
  "\<not> qualifies cs need i \<Longrightarrow> Cell_TryAllocate cs i need = (cs, None)"
  by (rule Cell_TryAllocate_fail) (auto simp: qualifies_def)

lemma sentinel_fail:
  "cellSize (cs ! 0) = 0 \<Longrightarrow> need \<noteq> 0 \<Longrightarrow> Cell_TryAllocate cs 0 need = (cs, None)"
  by (rule Cell_TryAllocate_fail) (simp add: word_neq_0_conv)

lemma path_sizes: "path N cs i stop js \<Longrightarrow> j \<in> set js \<Longrightarrow> cellSize (cs ! j) \<noteq> 0"
  by (induction js arbitrary: i) auto

section \<open>Coalescing and the largest free cell\<close>

lemma coalesce_hd:
  "\<exists>c r'. coalesce (b # r) = c # r' \<and> isAllocated c = isAllocated b"
proof (cases "isAllocated b")
  case True
  then show ?thesis by (simp add: coalesce_alloc)
next
  case False
  then show ?thesis using coalesce_free[of b r] by simp
qed

lemma coalesce_no_adjacentFree: "\<not> adjacentFree (coalesce xs)"
proof (induction xs rule: coalesce.induct)
  case (1 a b r)
  show ?case
  proof (cases "\<not> isAllocated a \<and> \<not> isAllocated b")
    case True
    then show ?thesis using 1 by simp
  next
    case False
    obtain c r' where c: "coalesce (b # r) = c # r'" "isAllocated c = isAllocated b"
      using coalesce_hd by blast
    then show ?thesis using False 1(2) by auto
  qed
qed simp_all

lemma coalesce_append:
  "pre = [] \<or> isAllocated (last pre) \<Longrightarrow> coalesce (pre @ xs) = coalesce pre @ coalesce xs"
proof (induction pre rule: coalesce.induct)
  case (1 a b r)
  show ?case
  proof (cases "\<not> isAllocated a \<and> \<not> isAllocated b")
    case True
    then have "r \<noteq> []" using 1(3) by auto
    then have "isAllocated (last (a\<lparr>cellSize := cellSize a + cellSize b\<rparr> # r))"
      using 1(3) by simp
    then show ?thesis using True 1(1) by simp
  next
    case False
    then show ?thesis using 1(2,3) by auto
  qed
qed (simp_all add: coalesce_alloc)

lemma coalesce_pair:
  assumes "\<not> isAllocated a" "\<not> isAllocated b" "pre = [] \<or> isAllocated (last pre)"
    "post = [] \<or> isAllocated (hd post)"
  shows "coalesce (pre @ a # b # post) =
           coalesce pre @ a\<lparr>cellSize := cellSize a + cellSize b\<rparr> # coalesce post"
proof -
  have "takeWhile (\<lambda>c. \<not> isAllocated c) post = []" "dropWhile (\<lambda>c. \<not> isAllocated c) post = post"
    using assms(4) by (cases post; simp)+
  then have "coalesce (a\<lparr>cellSize := cellSize a + cellSize b\<rparr> # post) =
             a\<lparr>cellSize := cellSize a + cellSize b\<rparr> # coalesce post"
    using coalesce_free[of "a\<lparr>cellSize := cellSize a + cellSize b\<rparr>" post] assms(1) by simp
  then show ?thesis using assms(1,2) coalesce_append[OF assms(3)] by simp
qed

lemma Sweep_loop2_fixed:
  "chain N cs i js \<Longrightarrow> \<not> adjacentFree (map ((!) cs) js) \<Longrightarrow>
   Sweep_loop2 N cs m i = Some (cs, maxFree cs m js)"
proof (induction js arbitrary: i m)
  case Nil
  then show ?case by (subst Sweep_loop2.simps) simp
next
  case (Cons a js)
  have a: "a = i" "i < N" "i \<noteq> N" "cellSize (cs ! i) \<noteq> 0" "chain N cs (Cell_Next cs i) js"
    using Cons.prems(1) by auto
  have adj: "\<not> adjacentFree (map ((!) cs) js)" using Cons.prems(2) by (cases js) auto
  show ?case
  proof (cases "isAllocated (cs ! i)")
    case True
    have "Sweep_loop2 N cs m i = Sweep_loop2 N cs m (Cell_Next cs i)"
      using a True by (subst Sweep_loop2.simps) simp
    then show ?thesis using Cons.IH[OF a(5) adj, of m] True a(1) by simp
  next
    case False
    have "Cell_Next cs i = N \<or> (Cell_Next cs i < N \<and> isAllocated (cs ! Cell_Next cs i))"
    proof (cases js)
      case Nil
      then show ?thesis using a(5) by simp
    next
      case (Cons b js0)
      then show ?thesis using a(1,5) False Cons.prems(2) \<open>\<not> adjacentFree (map ((!) cs) (a # js))\<close>
        by auto
    qed
    then have ab: "Sweep_absorb N cs i = Some cs" by (subst Sweep_absorb.simps) auto
    have "Sweep_loop2 N cs m i =
          Sweep_loop2 N cs (if cellSize (cs ! m) < cellSize (cs ! i) then i else m) (Cell_Next cs i)"
      using a False ab by (subst Sweep_loop2.simps) simp
    then show ?thesis
      using Cons.IH[OF a(5) adj, of "if cellSize (cs ! m) < cellSize (cs ! i) then i else m"]
        False a(1) by simp
  qed
qed

lemma maxFree_sentinel:
  assumes "cellSize (cs ! 0) = 0" "\<forall>x\<in>set bs. cellSize (cs ! x) \<noteq> 0"
  shows "((\<forall>x\<in>set bs. isAllocated (cs ! x)) \<longrightarrow> maxFree cs 0 bs = 0) \<and>
         ((\<exists>x\<in>set bs. \<not> isAllocated (cs ! x)) \<longrightarrow>
            (\<exists>pre post. bs = pre @ maxFree cs 0 bs # post \<and> \<not> isAllocated (cs ! maxFree cs 0 bs) \<and>
               (\<forall>x\<in>set pre. \<not> isAllocated (cs ! x) \<longrightarrow>
                  cellSize (cs ! x) < cellSize (cs ! maxFree cs 0 bs)) \<and>
               (\<forall>x\<in>set post. \<not> isAllocated (cs ! x) \<longrightarrow>
                  cellSize (cs ! x) \<le> cellSize (cs ! maxFree cs 0 bs))))"
proof (intro conjI impI)
  assume "\<forall>x\<in>set bs. isAllocated (cs ! x)"
  then show "maxFree cs 0 bs = 0"
    using maxFree_in[of cs 0 bs] maxFree_free[of cs 0 bs] by auto
next
  assume "\<exists>x\<in>set bs. \<not> isAllocated (cs ! x)"
  then obtain x where x: "x \<in> set bs" "\<not> isAllocated (cs ! x)" by blast
  then have "\<not> cellSize (cs ! x) \<le> cellSize (cs ! 0)"
    using assms by (simp add: word_neq_0_conv)
  then have "\<not> (maxFree cs 0 bs = 0 \<and>
               (\<forall>x\<in>set bs. \<not> isAllocated (cs ! x) \<longrightarrow> cellSize (cs ! x) \<le> cellSize (cs ! 0)))"
    using x by blast
  then show "\<exists>pre post. bs = pre @ maxFree cs 0 bs # post \<and> \<not> isAllocated (cs ! maxFree cs 0 bs) \<and>
               (\<forall>x\<in>set pre. \<not> isAllocated (cs ! x) \<longrightarrow>
                  cellSize (cs ! x) < cellSize (cs ! maxFree cs 0 bs)) \<and>
               (\<forall>x\<in>set post. \<not> isAllocated (cs ! x) \<longrightarrow>
                  cellSize (cs ! x) \<le> cellSize (cs ! maxFree cs 0 bs))"
    using maxFree_first_max[of cs 0 bs] by blast
qed

section \<open>What Sweep computes\<close>

lemma Sweep_result:
  assumes "wf_page N p"
  shows "\<exists>cs1 cs2 js'.
     Sweep_loop1 N (cells p) M False 1 =
       Some (cs1, M - Cell_data ` {j \<in> set (cellChain N (cells p) 1). isAllocated (cells p ! j)},
             \<exists>j\<in>set (cellChain N (cells p) 1). isAllocated (cells p ! j) \<and> Cell_data j \<in> M) \<and>
     length cs1 = N \<and> chain N cs1 1 (cellChain N (cells p) 1) \<and>
     (\<forall>j. cs1 ! j = (if j \<in> set (cellChain N (cells p) 1) \<and> isAllocated (cells p ! j) \<and> Cell_data j \<notin> M
                     then (cells p ! j)\<lparr>isAllocated := False\<rparr> else cells p ! j)) \<and>
     Sweep_loop2 N cs1 0 1 = Some (cs2, maxFree cs2 0 js') \<and>
     length cs2 = N \<and> chain N cs2 1 js' \<and>
     map ((!) cs2) js' = coalesce (map ((!) cs1) (cellChain N (cells p) 1)) \<and>
     cs2 ! 0 = cells p ! 0 \<and>
     (\<forall>j. isAllocated (cs2 ! j) = isAllocated (cs1 ! j)) \<and>
     set js' \<subseteq> set (cellChain N (cells p) 1) \<and>
     (\<forall>j\<in>set (cellChain N (cells p) 1). isAllocated (cs1 ! j) \<longrightarrow> j \<in> set js' \<and> cs2 ! j = cs1 ! j) \<and>
     (\<forall>j\<in>set (cellChain N (cells p) 1). \<exists>f\<in>set js'. f \<le> j \<and> Cell_Next cs1 j \<le> Cell_Next cs2 f \<and>
                           isAllocated (cs1 ! f) = isAllocated (cs1 ! j)) \<and>
     Sweep N p M =
       Some (p\<lparr>cells := cs2, curBlock := maxFree cs2 0 js'\<rparr>,
             M - Cell_data ` {j \<in> set (cellChain N (cells p) 1). isAllocated (cells p ! j)},
             \<exists>j\<in>set (cellChain N (cells p) 1). isAllocated (cells p ! j) \<and> Cell_data j \<in> M)"
proof -
  define cs where "cs = cells p"
  define js where "js = cellChain N cs 1"
  note d = wf_pageD[OF assms, folded cs_def, folded js_def]
  from Sweep_loop1_chain[OF d(4) d(2), of M False] obtain cs1 where
    l1: "Sweep_loop1 N cs M False 1 =
           Some (cs1, M - Cell_data ` {j \<in> set js. isAllocated (cs ! j)},
                 \<exists>j\<in>set js. isAllocated (cs ! j) \<and> Cell_data j \<in> M)"
        "length cs1 = N"
        "\<forall>j. cs1 ! j = (if j \<in> set js \<and> isAllocated (cs ! j) \<and> Cell_data j \<notin> M
                         then (cs ! j)\<lparr>isAllocated := False\<rparr> else cs ! j)"
    by auto
  have ch1: "chain N cs1 1 js" using d(4) by (rule path_cong) (simp add: l1(3))
  have "0 \<notin> set js" using path_bounds[OF d(4)] by fastforce
  then have z1: "cs1 ! 0 = cs ! 0" using l1(3) by simp
  from Sweep_loop2_chain[OF ch1 l1(2) d(7), of 0] obtain cs2 js' where
    l2: "Sweep_loop2 N cs1 0 1 = Some (cs2, maxFree cs2 0 js')"
        "length cs2 = N" "chain N cs2 1 js'"
        "map ((!) cs2) js' = coalesce (map ((!) cs1) js)"
        "\<forall>j<1. cs2 ! j = cs1 ! j"
        "\<forall>j. isAllocated (cs2 ! j) = isAllocated (cs1 ! j)"
        "set js' \<subseteq> set js"
        "\<forall>j\<in>set js. isAllocated (cs1 ! j) \<longrightarrow> j \<in> set js' \<and> cs2 ! j = cs1 ! j"
        "\<forall>j\<in>set js. \<exists>f\<in>set js'. f \<le> j \<and> Cell_Next cs1 j \<le> Cell_Next cs2 f \<and>
                           isAllocated (cs1 ! f) = isAllocated (cs1 ! j)"
    by auto
  have z2: "cs2 ! 0 = cs ! 0" using l2(5) z1 by simp
  have sw: "Sweep N p M =
       Some (p\<lparr>cells := cs2, curBlock := maxFree cs2 0 js'\<rparr>,
             M - Cell_data ` {j \<in> set js. isAllocated (cs ! j)},
             \<exists>j\<in>set js. isAllocated (cs ! j) \<and> Cell_data j \<in> M)"
    using l1(1) l2(1) by (simp add: Sweep_def cs_def[symmetric])
  show ?thesis unfolding cs_def[symmetric] js_def[symmetric]
    apply (rule exI[of _ cs1])
    apply (rule exI[of _ cs2])
    apply (rule exI[of _ js'])
    using l1 ch1 l2(1,2,3,4) z2 l2(6,7,8,9) sw by (intro conjI) assumption+
qed

section \<open>Where the cursor can be left\<close>

lemma cells_resize_flag:
  "isAllocated (cs[b := (cs ! b)\<lparr>cellSize := s\<rparr>] ! j) = isAllocated (cs ! j)"
proof (cases "b < length cs")
  case True
  then show ?thesis by (cases "j = b") simp_all
next
  case False
  then show ?thesis by (simp add: list_update_beyond)
qed

lemma UpdateCurBlock_loop_free:
  "UpdateCurBlock_loop N cs need stop m i = Some y \<Longrightarrow>
   (case y of Found b \<Rightarrow> \<not> isAllocated (cs ! b)
            | Exhausted m' \<Rightarrow> m' = m \<or> \<not> isAllocated (cs ! m'))"
  apply (erule UpdateCurBlock_loop.raw_induct[rotated, where P = "\<lambda>N cs need stop m i y.
     (case y of Found b \<Rightarrow> \<not> isAllocated (cs ! b)
            | Exhausted m' \<Rightarrow> m' = m \<or> \<not> isAllocated (cs ! m'))"])
  subgoal premises 1 for loop N cs need stop m block y
  proof (cases "block = stop")
    case True
    then show ?thesis using 1(2) by auto
  next
    case ns: False
    show ?thesis
    proof (cases "\<not> isAllocated (cs ! block) \<and> cellSize (cs ! m) < cellSize (cs ! block)")
      case True
      show ?thesis
      proof (cases "need \<le> cellSize (cs ! block)")
        case le: True
        then show ?thesis using 1(2) ns True by (auto split: if_splits)
      next
        case False
        then have "loop N cs need stop block (Cell_Next cs block) = Some y"
          using 1(2) ns True by (auto split: if_splits)
        from 1(1)[OF this] show ?thesis using True by (auto split: scan.splits)
      qed
    next
      case False
      then have "loop N cs need stop m (Cell_Next cs block) = Some y"
        using 1(2) ns by (auto split: if_splits)
      from 1(1)[OF this] show ?thesis .
    qed
  qed
  done

lemma UpdateCurBlock_free:
  assumes "UpdateCurBlock N p need = Some p'"
  shows "curBlock p' = 0 \<or> \<not> isAllocated (cells p' ! curBlock p')"
proof -
  define p1 where "p1 = (if curBlock p = 0 then p\<lparr>curBlock := 1\<rparr> else p)"
  obtain y where y: "UpdateCurBlock_loop N (cells p1) need N 0 (curBlock p1) = Some y"
    using assms by (auto simp: UpdateCurBlock_def Let_def p1_def[symmetric] split: option.splits)
  note f1 = UpdateCurBlock_loop_free[OF y]
  show ?thesis
  proof (cases y)
    case (Found b)
    then have "p' = p1\<lparr>curBlock := b\<rparr>"
      using assms y by (simp add: UpdateCurBlock_def Let_def p1_def[symmetric])
    then show ?thesis using f1 Found by simp
  next
    case (Exhausted m)
    obtain y2 where y2: "UpdateCurBlock_loop N (cells p1) need (curBlock p1) m 1 = Some y2"
      using assms y Exhausted
      by (auto simp: UpdateCurBlock_def Let_def p1_def[symmetric] split: option.splits)
    note f2 = UpdateCurBlock_loop_free[OF y2]
    show ?thesis
    proof (cases y2)
      case (Found b)
      then have "p' = p1\<lparr>curBlock := b\<rparr>"
        using assms y y2 Exhausted by (simp add: UpdateCurBlock_def Let_def p1_def[symmetric])
      then show ?thesis using f2 Found by simp
    next
      case e2: (Exhausted m')
      then have "p' = p1\<lparr>curBlock := m'\<rparr>"
        using assms y y2 Exhausted by (simp add: UpdateCurBlock_def Let_def p1_def[symmetric])
      then show ?thesis using f1 f2 Exhausted e2 by auto
    qed
  qed
qed

lemma Sweep_absorb_flags:
  "Sweep_absorb N cs b = Some cs' \<Longrightarrow> \<forall>j. isAllocated (cs' ! j) = isAllocated (cs ! j)"
  apply (erule Sweep_absorb.raw_induct[rotated, where P = "\<lambda>N cs b cs'.
     \<forall>j. isAllocated (cs' ! j) = isAllocated (cs ! j)"])
  subgoal premises 1 for absorb N cs block y
  proof (cases "Cell_Next cs block = N \<or> isAllocated (cs ! Cell_Next cs block)")
    case True
    then show ?thesis using 1(2) by (auto split: if_splits)
  next
    case False
    then have "absorb N
             (cs[block := (cs ! block)\<lparr>cellSize := cellSize (cs ! block) + cellSize (cs ! Cell_Next cs block)\<rparr>])
             block = Some y"
      using 1(2) by (auto split: if_splits)
    from 1(1)[OF this] show ?thesis by (simp add: cells_resize_flag)
  qed
  done

lemma Sweep_loop2_free:
  "Sweep_loop2 N cs m i = Some y \<Longrightarrow>
   (\<forall>j. isAllocated (fst y ! j) = isAllocated (cs ! j)) \<and>
   (snd y = m \<or> \<not> isAllocated (cs ! snd y))"
  apply (erule Sweep_loop2.raw_induct[rotated, where P = "\<lambda>N cs m i y.
     (\<forall>j. isAllocated (fst y ! j) = isAllocated (cs ! j)) \<and>
     (snd y = m \<or> \<not> isAllocated (cs ! snd y))"])
  subgoal premises 1 for loop N cs m block y
  proof (cases "block = N")
    case True
    then show ?thesis using 1(2) by auto
  next
    case ns: False
    show ?thesis
    proof (cases "isAllocated (cs ! block)")
      case True
      then have "loop N cs m (Cell_Next cs block) = Some y"
        using 1(2) ns by (auto split: if_splits)
      from 1(1)[OF this] show ?thesis .
    next
      case False
      then obtain cs1 where
        c: "Sweep_absorb N cs block = Some cs1"
           "loop N cs1 (if cellSize (cs1 ! m) < cellSize (cs1 ! block) then block else m)
              (Cell_Next cs1 block) = Some y"
        using 1(2) ns by (auto split: if_splits bind_splits)
      note fl = Sweep_absorb_flags[OF c(1)]
      from 1(1)[OF c(2)] show ?thesis using fl False by (auto split: if_splits)
    qed
  qed
  done

lemma Sweep_free:
  assumes "Sweep N p marks = Some (p', marks', alive)"
  shows "curBlock p' = 0 \<or> \<not> isAllocated (cells p' ! curBlock p')"
proof -
  obtain cs1 m1 a1 cs2 m where
    s: "Sweep_loop1 N (cells p) marks False 1 = Some (cs1, m1, a1)"
       "Sweep_loop2 N cs1 0 1 = Some (cs2, m)"
       "p' = p\<lparr>cells := cs2, curBlock := m\<rparr>"
    using assms by (auto simp: Sweep_def split: bind_splits)
  from Sweep_loop2_free[OF s(2)] show ?thesis using s(3) by auto
qed

section \<open>Carving and the invariant\<close>

lemma Cell_TryAllocate_None:
  "Cell_TryAllocate cs i need = (cs', None) \<Longrightarrow> cs' = cs"
  by (auto simp: Cell_TryAllocate_def Let_def split: if_splits)

lemma UpdateCurBlock_cells:
  "UpdateCurBlock N p need = Some p' \<Longrightarrow> cells p' = cells p"
  by (auto simp: UpdateCurBlock_def Let_def split: option.splits scan.splits if_splits)

lemma wf_page_same_sizes:
  assumes "wf_page N p" "length cs' = N" "\<forall>j. cellSize (cs' ! j) = cellSize (cells p ! j)"
  shows "wf_page N (p\<lparr>cells := cs'\<rparr>)"
proof -
  note d = wf_pageD[OF assms(1)]
  have "chain N cs' 1 (cellChain N (cells p) 1)"
    using d(4) by (rule path_cong) (simp add: assms(3))
  then show ?thesis using d assms by (intro wf_pageI[where js = "cellChain N (cells p) 1"]) simp_all
qed

lemma chain_carve:
  assumes "chain N cs i js" "c \<in> set js" "0 < n" "n < unat (cellSize (cs ! c))"
    "unat (cellSize (cs2 ! c)) = n"
    "unat (cellSize (cs2 ! (c + n))) = unat (cellSize (cs ! c)) - n"
    "\<forall>j. j \<noteq> c \<and> j \<noteq> c + n \<longrightarrow> cellSize (cs2 ! j) = cellSize (cs ! j)"
  shows "\<exists>js'. chain N cs2 i js' \<and> set js \<subseteq> set js'"
  using assms(1,2)
proof (induction js arbitrary: i)
  case Nil
  then show ?case by simp
next
  case (Cons a js)
  have a: "a = i" "i < N" "i \<noteq> N" "cellSize (cs ! i) \<noteq> 0" "chain N cs (Cell_Next cs i) js"
    using Cons.prems(1) by auto
  have inext: "i < Cell_Next cs i" using a(4) by (rule Cell_Next_gt)
  show ?case
  proof (cases "i = c")
    case True
    have nle: "Cell_Next cs c \<le> N" using a(5) True path_le_stop by blast
    have n2: "Cell_Next cs2 c = c + n" using assms(5) by (simp add: Cell_Next_def)
    have n3: "Cell_Next cs2 (c + n) = Cell_Next cs c"
      using assms(4,6) by (simp add: Cell_Next_def)
    have s2: "cellSize (cs2 ! c) \<noteq> 0" using assms(3,5) by auto
    have s3: "cellSize (cs2 ! (c + n)) \<noteq> 0" using assms(4,6) by auto
    have lt: "c + n < N" using assms(4) nle by (simp add: Cell_Next_def)
    have "\<And>j. j \<in> set js \<Longrightarrow> cellSize (cs2 ! j) = cellSize (cs ! j)"
    proof -
      fix j assume "j \<in> set js"
      then have "Cell_Next cs c \<le> j" using path_bounds[OF a(5)] True by simp
      then have "j \<noteq> c \<and> j \<noteq> c + n" using assms(4) by (simp add: Cell_Next_def)
      then show "cellSize (cs2 ! j) = cellSize (cs ! j)" using assms(7) by simp
    qed
    then have "chain N cs2 (Cell_Next cs c) js"
      using a(5) True by (intro path_cong[of N cs _ N js cs2]) simp_all
    then have "chain N cs2 c (c # (c + n) # js)"
      using s2 s3 n2 n3 lt True a(2) by simp
    then show ?thesis using True a(1) by (intro exI[of _ "c # (c + n) # js"]) auto
  next
    case False
    then have cin: "c \<in> set js" using Cons.prems(2) a(1) by simp
    then have "Cell_Next cs i \<le> c" using path_bounds[OF a(5)] by simp
    then have "i \<noteq> c \<and> i \<noteq> c + n" using inext by simp
    then have same: "cellSize (cs2 ! i) = cellSize (cs ! i)" using assms(7) by simp
    then have nx: "Cell_Next cs2 i = Cell_Next cs i" by (simp add: Cell_Next_def)
    from Cons.IH[OF a(5) cin] obtain js' where
      js': "chain N cs2 (Cell_Next cs i) js'" "set js \<subseteq> set js'" by blast
    have "chain N cs2 i (i # js')" using js'(1) a same nx by simp
    then show ?thesis using js'(2) a(1) by (intro exI[of _ "i # js'"]) auto
  qed
qed

lemma Cell_full_update:
  "(c :: Cell)\<lparr>isAllocated := a, cellSize := s\<rparr> = \<lparr>isAllocated = a, cellSize = s\<rparr>"
  by (cases c) simp

lemma Cell_TryAllocate_wf:
  assumes "wf_page N p"
  shows "wf_page N (p\<lparr>cells := fst (Cell_TryAllocate (cells p) (curBlock p) need)\<rparr>)"
proof -
  define cs where "cs = cells p"
  define c where "c = curBlock p"
  define s where "s = cellSize (cs ! c)"
  note d = wf_pageD[OF assms, folded cs_def, folded c_def]
  have cN: "c < N" using d(5,6) path_bounds[OF d(4)] by auto
  have pid: "p\<lparr>cells := cs\<rparr> = p" by (simp add: cs_def)
  show ?thesis unfolding cs_def[symmetric] c_def[symmetric]
  proof (cases "isAllocated (cs ! c) \<or> s < need")
    case True
    then show "wf_page N (p\<lparr>cells := fst (Cell_TryAllocate cs c need)\<rparr>)"
      using assms by (simp add: Cell_TryAllocate_def s_def pid)
  next
    case ok: False
    show "wf_page N (p\<lparr>cells := fst (Cell_TryAllocate cs c need)\<rparr>)"
    proof (cases "need < s")
      case False
      then have "fst (Cell_TryAllocate cs c need) = cs[c := (cs ! c)\<lparr>isAllocated := True\<rparr>]"
        using ok by (simp add: Cell_TryAllocate_def s_def Let_def)
      moreover have "\<forall>j. cellSize (cs[c := (cs ! c)\<lparr>isAllocated := True\<rparr>] ! j) = cellSize (cs ! j)"
        using cN d(2) by (simp add: nth_list_update)
      ultimately show ?thesis
        using wf_page_same_sizes[OF assms, of "cs[c := (cs ! c)\<lparr>isAllocated := True\<rparr>]"] d(2)
        by (simp add: cs_def[symmetric])
    next
      case lt: True
      define cs' where "cs' = cs[c := \<lparr>isAllocated = True, cellSize = need\<rparr>]"
      define cs2 where "cs2 = cs'[c + unat need := Cell_new (s - need)]"
      have nc: "Cell_Next cs' c = c + unat need"
        using cN d(2) by (simp add: Cell_Next_def cs'_def)
      have r: "fst (Cell_TryAllocate cs c need) = cs2"
        using ok lt cN d(2) nc[unfolded cs'_def]
        by (simp add: Cell_TryAllocate_def s_def[symmetric] Let_def cs2_def cs'_def Cell_full_update)
      have len: "length cs2 = N" using d(2) by (simp add: cs2_def cs'_def)
      have us: "unat need < unat s" using lt by (simp add: word_less_nat_alt)
      have sub: "unat (s - need) = unat s - unat need"
        using lt by (simp add: unat_sub)
      have c0: "c \<noteq> 0"
      proof
        assume "c = 0"
        then have "s = 0" using d(3) by (simp add: s_def)
        then show False using us by simp
      qed
      then have cin: "c \<in> set (cellChain N cs 1)" using d(5) by simp
      have cnN: "c + unat need < N"
        using path_Next_le[OF d(4) cin] us by (simp add: Cell_Next_def s_def)
      show ?thesis
      proof (cases "need = 0")
        case True
        have "cs2 = cs[c := Cell_new s]"
          using True by (simp add: cs2_def cs'_def)
        moreover have "cs ! c = Cell_new s" using ok by (simp add: Cell_new_def s_def)
        ultimately have "cs2 = cs" by (metis list_update_id)
        then show ?thesis using r assms by (simp add: pid)
      next
        case False
        then have pos: "0 < unat need" by (simp add: unat_gt_0)
        have e1: "unat (cellSize (cs2 ! c)) = unat need"
          using pos cN d(2) by (simp add: cs2_def cs'_def)
        have e2: "unat (cellSize (cs2 ! (c + unat need))) = unat (cellSize (cs ! c)) - unat need"
          using cnN d(2) sub by (simp add: cs2_def cs'_def Cell_new_def s_def)
        have e3: "\<forall>j. j \<noteq> c \<and> j \<noteq> c + unat need \<longrightarrow> cellSize (cs2 ! j) = cellSize (cs ! j)"
          by (simp add: cs2_def cs'_def)
        from chain_carve[OF d(4) cin pos us[unfolded s_def] e1 e2 e3] obtain js' where
          js': "chain N cs2 1 js'" "set (cellChain N cs 1) \<subseteq> set js'" by blast
        have z: "cellSize (cs2 ! 0) = 0" using e3 c0 d(3) by simp
        have "wf_page N (p\<lparr>cells := cs2\<rparr>)"
          using d(1) len z js' cin
          by (intro wf_pageI[where js = js']) (auto simp: c_def)
        then show ?thesis using r by simp
      qed
    qed
  qed
qed

lemma UpdateCurBlock_wf:
  assumes "wf_page N p"
  shows "\<exists>p'. UpdateCurBlock N p need = Some p' \<and> wf_page N p' \<and> cells p' = cells p"
proof -
  note d = wf_pageD[OF assms]
  define b where "b = (case find (qualifies (cells p) need) (scanOrder N p) of
                         Some b \<Rightarrow> b | None \<Rightarrow> maxFree (cells p) 0 (scanOrder N p))"
  have u: "UpdateCurBlock N p need = Some (p\<lparr>curBlock := b\<rparr>)"
    using UpdateCurBlock_eq(1)[OF assms, of need] by (simp add: b_def)
  have "b = 0 \<or> b \<in> set (scanOrder N p)"
  proof (cases "find (qualifies (cells p) need) (scanOrder N p)")
    case None
    then show ?thesis using maxFree_in[of "cells p" 0 "scanOrder N p"] by (simp add: b_def)
  next
    case (Some x)
    then have "x \<in> set (scanOrder N p)" by (auto simp: find_Some_iff)
    then show ?thesis using Some by (simp add: b_def)
  qed
  then have "b = 0 \<or> b \<in> set (cellChain N (cells p) 1)"
    using UpdateCurBlock_eq(2)[OF assms] by simp
  then have "wf_page N (p\<lparr>curBlock := b\<rparr>)"
    using d by (intro wf_pageI[where js = "cellChain N (cells p) 1"]) simp_all
  then show ?thesis using u by simp
qed

lemma Sweep_wf:
  assumes "wf_page N p"
  shows "\<exists>p' marks' alive. Sweep N p marks = Some (p', marks', alive) \<and> wf_page N p'"
proof -
  note d = wf_pageD[OF assms]
  from Sweep_result[OF assms, of marks] obtain cs2 js' marks' alive where
    r: "length cs2 = N" "chain N cs2 1 js'" "cs2 ! 0 = cells p ! 0"
       "Sweep N p marks = Some (p\<lparr>cells := cs2, curBlock := maxFree cs2 0 js'\<rparr>, marks', alive)"
    by blast
  have "wf_page N (p\<lparr>cells := cs2, curBlock := maxFree cs2 0 js'\<rparr>)"
    using d(1,3) r(1,2,3) maxFree_in[of cs2 0 js']
    by (intro wf_pageI[where js = js']) auto
  then show ?thesis using r(4) by blast
qed

lemma TryAllocate_wf:
  assumes "wf_page N p"
  shows "\<exists>p' r. TryAllocate N p blockSize = Some (p', r) \<and> wf_page N p'"
proof -
  define need where "need = blockSize + 1"
  obtain cs1 block where c1: "Cell_TryAllocate (cells p) (curBlock p) need = (cs1, block)"
    by (cases "Cell_TryAllocate (cells p) (curBlock p) need") auto
  have w1: "wf_page N (p\<lparr>cells := cs1\<rparr>)"
    using Cell_TryAllocate_wf[OF assms, of need] c1 by simp
  show ?thesis
  proof (cases block)
    case (Some a)
    then have "TryAllocate N p blockSize = Some (p\<lparr>cells := cs1\<rparr>, block)"
      using c1 by (simp add: TryAllocate_def need_def[symmetric])
    then show ?thesis using w1 by blast
  next
    case None
    from UpdateCurBlock_wf[OF w1, of need] obtain p2 where
      p2: "UpdateCurBlock N (p\<lparr>cells := cs1\<rparr>) need = Some p2" "wf_page N p2" by blast
    obtain cs3 block' where c3: "Cell_TryAllocate (cells p2) (curBlock p2) need = (cs3, block')"
      by (cases "Cell_TryAllocate (cells p2) (curBlock p2) need") auto
    have w3: "wf_page N (p2\<lparr>cells := cs3\<rparr>)"
      using Cell_TryAllocate_wf[OF p2(2), of need] c3 by simp
    have "TryAllocate N p blockSize = Some (p2\<lparr>cells := cs3\<rparr>, block')"
      using c1 None p2(1) c3 by (simp add: TryAllocate_def need_def[symmetric])
    then show ?thesis using w3 by blast
  qed
qed

lemma run_wf: "wf_page N p \<Longrightarrow> \<exists>p'. run N p ops = Some p' \<and> wf_page N p'"
proof (induction ops arbitrary: p)
  case Nil
  then show ?case by simp
next
  case (Cons x xs)
  have "\<exists>q. step N p x = Some q \<and> wf_page N q"
  proof (cases x)
    case (OpTryAllocate blockSize)
    then show ?thesis using TryAllocate_wf[OF Cons.prems, of blockSize] by auto
  next
    case (OpSweep marks)
    then show ?thesis using Sweep_wf[OF Cons.prems, of marks] by auto
  qed
  then obtain q where q: "step N p x = Some q" "wf_page N q" by blast
  from Cons.IH[OF q(2)] show ?case using q(1) by simp
qed

section \<open>The claims\<close>

subsection \<open>Create\<close>

text \<open>C8. \<open>Create(cellCount)\<close> aborts exactly when \<open>cellCount\<close> is at least
  \<open>MEDIUM_PAGE_CELL_COUNT\<close>. For every smaller \<open>cellCount\<close> it returns a page whose
  \<open>cells[0]\<close> is the zero-size sentinel, whose chain consists of the single free cell at
  index 1, of size \<open>MEDIUM_PAGE_CELL_COUNT - 1\<close>, and whose cursor is on \<open>cells[0]\<close>.\<close>

theorem Create_capacity:
  assumes "valid_CELL_COUNT N" "length raw = N"
  shows "(Create N raw cellCount = Inl RuntimeAssertFailed \<longleftrightarrow> N \<le> unat cellCount) \<and>
         (unat cellCount < N \<longrightarrow>
            (\<exists>p. Create N raw cellCount = Inr p \<and>
                 cells p ! 0 = Cell_new 0 \<and> cellSize (cells p ! 0) = 0 \<and>
                 cellChain N (cells p) 1 = [1] \<and> \<not> isAllocated (cells p ! 1) \<and>
                 unat (cellSize (cells p ! 1)) = N - 1 \<and> curBlock p = 0))"
proof -
  let ?p = "MediumPage_new N raw cellCount"
  have N: "2 \<le> N" using assms(1) by (simp add: valid_CELL_COUNT_def)
  have "cells ?p ! 0 = Cell_new 0" "cells ?p ! 1 = Cell_new (of_nat (N - 1))" "curBlock ?p = 0"
    using N assms(2) by (simp_all add: MediumPage_new_def)
  then have "cells ?p ! 0 = Cell_new 0 \<and> cellSize (cells ?p ! 0) = 0 \<and>
             \<not> isAllocated (cells ?p ! 1) \<and> curBlock ?p = 0"
    by (simp add: Cell_new_def)
  then show ?thesis
    using MediumPage_new_wf(2,3)[OF assms, of cellCount] by (auto simp: Create_def)
qed

theorem Create_capacity_witness:
  "valid_CELL_COUNT 4 \<and> length (replicate 4 (Cell_new 9)) = 4 \<and>
   Create 4 (replicate 4 (Cell_new 9)) 7 = Inl RuntimeAssertFailed \<and>
   (\<exists>p. Create 4 (replicate 4 (Cell_new 9)) 3 = Inr p \<and>
        cellChain 4 (cells p) 1 = [1] \<and> unat (cellSize (cells p ! 1)) = 3 \<and> curBlock p = 0)"
proof -
  have v: "valid_CELL_COUNT 4" by (simp add: valid_CELL_COUNT_def)
  have l: "length (replicate 4 (Cell_new 9)) = 4" by simp
  show ?thesis
    using Create_capacity[OF v l, of 7] Create_capacity[OF v l, of 3] v by auto
qed

text \<open>C9. Any two values of \<open>cellCount\<close> below \<open>MEDIUM_PAGE_CELL_COUNT\<close> give the same
  page: the argument is only compared with the constant, and the free cell has size
  \<open>MEDIUM_PAGE_CELL_COUNT - 1\<close> whatever it is.\<close>

theorem Create_ignores_cellCount:
  assumes "valid_CELL_COUNT N" "length raw = N" "unat c1 < N" "unat c2 < N"
  shows "\<exists>p. Create N raw c1 = Inr p \<and> Create N raw c2 = Inr p \<and>
             unat (cellSize (cells p ! 1)) = N - 1 \<and> curBlock p = 0"
  using assms MediumPage_new_wf(3)[OF assms(1,2), of c1]
  by (simp add: Create_def MediumPage_new_def)

theorem Create_ignores_cellCount_witness:
  "valid_CELL_COUNT 16 \<and> length (replicate 16 (Cell_new 9)) = 16 \<and> unat (0 :: u32) < 16 \<and>
   unat (15 :: u32) < 16 \<and>
   (\<exists>p. Create 16 (replicate 16 (Cell_new 9)) 0 = Inr p \<and>
        Create 16 (replicate 16 (Cell_new 9)) 15 = Inr p \<and>
        unat (cellSize (cells p ! 1)) = 15 \<and> curBlock p = 0)"
proof -
  have v: "valid_CELL_COUNT 16" by (simp add: valid_CELL_COUNT_def)
  have l: "length (replicate 16 (Cell_new 9)) = 16" by simp
  have a: "unat (0 :: u32) < 16" "unat (15 :: u32) < 16" by simp_all
  show ?thesis
    using Create_ignores_cellCount[OF v l a] v by simp
qed

subsection \<open>The invariant\<close>

text \<open>C1. From a page that \<open>Create\<close> returned, every sequence of \<open>TryAllocate\<close> and
  \<open>Sweep\<close> calls, with any block sizes and any marks, runs to the end, and in the state it
  reaches \<open>CheckInvariants\<close> returns true: the cursor is inside the page, and the walk from
  index 1 along \<open>Next\<close> meets strictly increasing headers and ends exactly at the end of the
  page.\<close>

theorem CheckInvariants_always:
  assumes "valid_CELL_COUNT N" "length raw = N" "Create N raw cellCount = Inr p0"
  shows "\<exists>p. run N p0 ops = Some p \<and> CheckInvariants N p \<and> curBlock p < N \<and>
             path N (cells p) 1 N (cellChain N (cells p) 1) \<and>
             sorted_wrt (<) (cellChain N (cells p) 1)"
proof -
  have "p0 = MediumPage_new N raw cellCount"
    using assms(3) by (simp add: Create_def split: if_splits)
  then have "wf_page N p0" using MediumPage_new_wf(1)[OF assms(1,2)] by simp
  from run_wf[OF this, of ops] obtain p where p: "run N p0 ops = Some p" "wf_page N p" by blast
  note d = wf_pageD[OF p(2)]
  have "CheckInvariants N p" using p(2) by (simp add: wf_page_def)
  moreover have "curBlock p < N" using d(5,6) path_bounds[OF d(4)] by auto
  moreover have "sorted_wrt (<) (cellChain N (cells p) 1)" using d(4) by (rule path_sorted)
  ultimately show ?thesis using p(1) d(4) by blast
qed

theorem CheckInvariants_always_witness:
  "valid_CELL_COUNT 16 \<and> length (replicate 16 (Cell_new 9)) = 16 \<and>
   Create 16 (replicate 16 (Cell_new 9)) 0 = Inr (MediumPage_new 16 (replicate 16 (Cell_new 9)) 0) \<and>
   (\<exists>p. run 16 (MediumPage_new 16 (replicate 16 (Cell_new 9)) 0)
          [OpTryAllocate 5, OpTryAllocate 20, OpTryAllocate 8, OpSweep {2}, OpTryAllocate 8] = Some p \<and>
        CheckInvariants 16 p \<and> curBlock p < 16 \<and>
        path 16 (cells p) 1 16 (cellChain 16 (cells p) 1) \<and>
        sorted_wrt (<) (cellChain 16 (cells p) 1))"
proof -
  have v: "valid_CELL_COUNT 16" by (simp add: valid_CELL_COUNT_def)
  have l: "length (replicate 16 (Cell_new 9)) = 16" by simp
  have c: "Create 16 (replicate 16 (Cell_new 9)) 0 =
             Inr (MediumPage_new 16 (replicate 16 (Cell_new 9)) 0)"
    by (simp add: Create_def)
  show ?thesis
    by (intro conjI v l c CheckInvariants_always[OF v l c])
qed

subsection \<open>TryAllocate\<close>

text \<open>C4, as amended. A \<open>TryAllocate\<close> that returns "no space" leaves every cell as it
  was: nothing is allocated, split or resized. The cursor is the one thing it may change: the
  page it leaves is the page that \<open>UpdateCurBlock(blockSize + 1)\<close> leaves. On a well-formed
  page the call returns.\<close>

theorem TryAllocate_failure:
  "(TryAllocate N p blockSize = Some (p', None) \<longrightarrow>
      cells p' = cells p \<and> p' = p\<lparr>curBlock := curBlock p'\<rparr> \<and>
      UpdateCurBlock N p (blockSize + 1) = Some p') \<and>
   (wf_page N p \<longrightarrow> (\<exists>r. TryAllocate N p blockSize = Some r))"
proof (rule conjI; rule impI)
  assume t: "TryAllocate N p blockSize = Some (p', None)"
  define need where "need = blockSize + 1"
  obtain cs1 block where c1: "Cell_TryAllocate (cells p) (curBlock p) need = (cs1, block)"
    by (cases "Cell_TryAllocate (cells p) (curBlock p) need") auto
  have bn: "block = None"
  proof (rule ccontr)
    assume "block \<noteq> None"
    then show False using t c1 by (simp add: TryAllocate_def need_def[symmetric])
  qed
  then have cs1: "cs1 = cells p" using c1 Cell_TryAllocate_None by blast
  have pid: "p\<lparr>cells := cells p\<rparr> = p" by simp
  obtain p2 where p2: "UpdateCurBlock N p need = Some p2"
    using t c1 bn cs1 by (auto simp: TryAllocate_def need_def[symmetric] split: option.splits)
  obtain cs3 block' where c3: "Cell_TryAllocate (cells p2) (curBlock p2) need = (cs3, block')"
    by (cases "Cell_TryAllocate (cells p2) (curBlock p2) need") auto
  have r: "p' = p2\<lparr>cells := cs3\<rparr>" "block' = None"
    using t c1 bn cs1 p2 c3 by (simp_all add: TryAllocate_def need_def[symmetric])
  then have "cs3 = cells p2" using c3 Cell_TryAllocate_None by blast
  then have pp: "p' = p2" using r(1) by simp
  have cc: "cells p2 = cells p" using p2 by (rule UpdateCurBlock_cells)
  show "cells p' = cells p \<and> p' = p\<lparr>curBlock := curBlock p'\<rparr> \<and>
      UpdateCurBlock N p (blockSize + 1) = Some p'"
    using pp cc p2 by (simp add: need_def)
next
  assume "wf_page N p"
  from TryAllocate_wf[OF this, of blockSize] show "\<exists>r. TryAllocate N p blockSize = Some r"
    by blast
qed

theorem TryAllocate_failure_witness:
  "wf_page 16 (MediumPage_new 16 (replicate 16 (Cell_new 9)) 0) \<and>
   TryAllocate 16 (MediumPage_new 16 (replicate 16 (Cell_new 9)) 0) 20 =
     Some ((MediumPage_new 16 (replicate 16 (Cell_new 9)) 0)\<lparr>curBlock := 1\<rparr>, None) \<and>
   cells ((MediumPage_new 16 (replicate 16 (Cell_new 9)) 0)\<lparr>curBlock := 1\<rparr>) =
     cells (MediumPage_new 16 (replicate 16 (Cell_new 9)) 0) \<and>
   UpdateCurBlock 16 (MediumPage_new 16 (replicate 16 (Cell_new 9)) 0) (20 + 1) =
     Some ((MediumPage_new 16 (replicate 16 (Cell_new 9)) 0)\<lparr>curBlock := 1\<rparr>)"
proof -
  have w: "wf_page 16 (MediumPage_new 16 (replicate 16 (Cell_new 9)) 0)"
    by (rule MediumPage_new_wf) (simp_all add: valid_CELL_COUNT_def)
  have t: "TryAllocate 16 (MediumPage_new 16 (replicate 16 (Cell_new 9)) 0) 20 =
     Some ((MediumPage_new 16 (replicate 16 (Cell_new 9)) 0)\<lparr>curBlock := 1\<rparr>, None)"
    by code_simp
  show ?thesis
    using TryAllocate_failure[of 16 "MediumPage_new 16 (replicate 16 (Cell_new 9)) 0" 20
        "(MediumPage_new 16 (replicate 16 (Cell_new 9)) 0)\<lparr>curBlock := 1\<rparr>"] w t
    by simp
qed

text \<open>"State unchanged" does not hold of the whole page. On the fresh page of 16 units
  \<open>TryAllocate(20)\<close> returns "no space" and has moved the cursor from the sentinel to
  index 1.\<close>

theorem TryAllocate_failure_counterexample:
  "TryAllocate 16 (MediumPage_new 16 (replicate 16 (Cell_new 9)) 0) 20 =
     Some ((MediumPage_new 16 (replicate 16 (Cell_new 9)) 0)\<lparr>curBlock := 1\<rparr>, None) \<and>
   (MediumPage_new 16 (replicate 16 (Cell_new 9)) 0)\<lparr>curBlock := 1\<rparr> \<noteq>
     MediumPage_new 16 (replicate 16 (Cell_new 9)) 0"
proof -
  have t: "TryAllocate 16 (MediumPage_new 16 (replicate 16 (Cell_new 9)) 0) 20 =
     Some ((MediumPage_new 16 (replicate 16 (Cell_new 9)) 0)\<lparr>curBlock := 1\<rparr>, None)"
    by code_simp
  have n: "(MediumPage_new 16 (replicate 16 (Cell_new 9)) 0)\<lparr>curBlock := 1\<rparr> \<noteq>
     MediumPage_new 16 (replicate 16 (Cell_new 9)) 0"
    by (simp add: MediumPage_new_def)
  show ?thesis using t n by simp
qed

subsection \<open>UpdateCurBlock\<close>

text \<open>C5. On a well-formed page, \<open>UpdateCurBlock(cellsNeeded)\<close> leaves the cursor on the
  first cell, in the order of the scan, that is free and at least \<open>cellsNeeded\<close> long: when
  the scan order is \<open>pre @ b # post\<close>, \<open>b\<close> qualifies and no cell of \<open>pre\<close> does, the call
  returns with \<open>curBlock = b\<close> and nothing else changed.\<close>

theorem UpdateCurBlock_first_fit:
  assumes "wf_page N p" "scanOrder N p = pre @ b # post"
    "qualifies (cells p) cellsNeeded b" "\<forall>x\<in>set pre. \<not> qualifies (cells p) cellsNeeded x"
  shows "UpdateCurBlock N p cellsNeeded = Some (p\<lparr>curBlock := b\<rparr>)"
proof -
  have "find (qualifies (cells p) cellsNeeded) (scanOrder N p) = Some b"
    unfolding assms(2) using assms(4,3) by (rule find_first)
  then show ?thesis using UpdateCurBlock_eq(1)[OF assms(1), of cellsNeeded] by simp
qed

theorem UpdateCurBlock_first_fit_witness:
  "wf_page 8 page_fit \<and> scanOrder 8 page_fit = [7, 1, 3] @ 4 # [] \<and>
   qualifies (cells page_fit) 2 4 \<and> \<not> qualifies (cells page_fit) 2 7 \<and>
   \<not> qualifies (cells page_fit) 2 1 \<and> \<not> qualifies (cells page_fit) 2 3 \<and>
   UpdateCurBlock 8 page_fit 2 = Some (page_fit\<lparr>curBlock := 4\<rparr>)"
proof -
  have w: "wf_page 8 page_fit"
    by (rule wf_page_eval) (simp add: valid_CELL_COUNT_def, code_simp)
  have s: "scanOrder 8 page_fit = [7, 1, 3] @ 4 # []" by code_simp
  have q: "qualifies (cells page_fit) 2 4" by code_simp
  have n: "\<forall>x\<in>set [7, 1, 3]. \<not> qualifies (cells page_fit) 2 x" by code_simp
  show ?thesis using UpdateCurBlock_first_fit[OF w s q n] w s q n by simp
qed

text \<open>Where the cursor is left when nothing fits. On a well-formed page on which no cell of
  the scan is free and at least \<open>cellsNeeded\<close> long, \<open>UpdateCurBlock\<close> leaves the cursor on
  the sentinel when the scan met no free cell, and otherwise on the free cell \<open>m\<close> of largest
  size that the scan met first: every free cell scanned before \<open>m\<close> is strictly smaller,
  every one scanned after it is at most as large. For \<open>cellsNeeded \<ge> 1\<close> the allocation then
  fails: the retry at \<open>m\<close> returns null and \<open>TryAllocate\<close> returns "no space" with the
  cursor on \<open>m\<close>.\<close>

lemma UpdateCurBlock_no_fit:
  assumes "wf_page N p"
    "\<forall>x\<in>set (scanOrder N p). \<not> qualifies (cells p) cellsNeeded x"
  shows "\<exists>m. UpdateCurBlock N p cellsNeeded = Some (p\<lparr>curBlock := m\<rparr>) \<and>
           ((\<forall>x\<in>set (scanOrder N p). isAllocated (cells p ! x)) \<longrightarrow> m = 0) \<and>
           ((\<exists>x\<in>set (scanOrder N p). \<not> isAllocated (cells p ! x)) \<longrightarrow>
              (\<exists>pre post. scanOrder N p = pre @ m # post \<and> \<not> isAllocated (cells p ! m) \<and>
                 (\<forall>x\<in>set pre. \<not> isAllocated (cells p ! x) \<longrightarrow>
                    cellSize (cells p ! x) < cellSize (cells p ! m)) \<and>
                 (\<forall>x\<in>set post. \<not> isAllocated (cells p ! x) \<longrightarrow>
                    cellSize (cells p ! x) \<le> cellSize (cells p ! m)))) \<and>
           (cellsNeeded \<noteq> 0 \<longrightarrow>
              Cell_TryAllocate (cells p) m cellsNeeded = (cells p, None) \<and>
              TryAllocate N p (cellsNeeded - 1) = Some (p\<lparr>curBlock := m\<rparr>, None))"
proof -
  define cs where "cs = cells p"
  define order where "order = scanOrder N p"
  define m where "m = maxFree cs 0 order"
  note d = wf_pageD[OF assms(1), folded cs_def]
  have nq: "\<forall>x\<in>set order. \<not> qualifies cs cellsNeeded x"
    using assms(2) by (simp add: cs_def order_def)
  have sizes: "\<forall>x\<in>set order. cellSize (cs ! x) \<noteq> 0"
  proof
    fix x assume "x \<in> set order"
    then have "x \<in> set (cellChain N cs 1)"
      using UpdateCurBlock_eq(2)[OF assms(1)] by (simp add: order_def cs_def)
    then show "cellSize (cs ! x) \<noteq> 0" using d(4) path_sizes by blast
  qed
  have "find (qualifies cs cellsNeeded) order = None" using nq by (rule find_None_all)
  then have upd: "UpdateCurBlock N p cellsNeeded = Some (p\<lparr>curBlock := m\<rparr>)"
    using UpdateCurBlock_eq(1)[OF assms(1), of cellsNeeded]
    by (simp add: cs_def order_def m_def)
  have allalloc: "(\<forall>x\<in>set order. isAllocated (cs ! x)) \<longrightarrow> m = 0"
    using maxFree_in[of cs 0 order] maxFree_free[of cs 0 order] by (auto simp: m_def)
  have somefree: "(\<exists>x\<in>set order. \<not> isAllocated (cs ! x)) \<longrightarrow>
              (\<exists>pre post. order = pre @ m # post \<and> \<not> isAllocated (cs ! m) \<and>
                 (\<forall>x\<in>set pre. \<not> isAllocated (cs ! x) \<longrightarrow> cellSize (cs ! x) < cellSize (cs ! m)) \<and>
                 (\<forall>x\<in>set post. \<not> isAllocated (cs ! x) \<longrightarrow> cellSize (cs ! x) \<le> cellSize (cs ! m)))"
  proof
    assume "\<exists>x\<in>set order. \<not> isAllocated (cs ! x)"
    then obtain x where x: "x \<in> set order" "\<not> isAllocated (cs ! x)" by blast
    then have "\<not> cellSize (cs ! x) \<le> cellSize (cs ! 0)" using sizes d(3) by (simp add: word_neq_0_conv)
    then have "\<not> (maxFree cs 0 order = 0 \<and>
                 (\<forall>x\<in>set order. \<not> isAllocated (cs ! x) \<longrightarrow> cellSize (cs ! x) \<le> cellSize (cs ! 0)))"
      using x by blast
    then show "\<exists>pre post. order = pre @ m # post \<and> \<not> isAllocated (cs ! m) \<and>
                 (\<forall>x\<in>set pre. \<not> isAllocated (cs ! x) \<longrightarrow> cellSize (cs ! x) < cellSize (cs ! m)) \<and>
                 (\<forall>x\<in>set post. \<not> isAllocated (cs ! x) \<longrightarrow> cellSize (cs ! x) \<le> cellSize (cs ! m))"
      using maxFree_first_max[of cs 0 order] unfolding m_def by blast
  qed
  have attempt: "cellsNeeded \<noteq> 0 \<longrightarrow>
              Cell_TryAllocate cs m cellsNeeded = (cs, None) \<and>
              TryAllocate N p (cellsNeeded - 1) = Some (p\<lparr>curBlock := m\<rparr>, None)"
  proof
    assume nz: "cellsNeeded \<noteq> 0"
    have fail: "\<And>b. b = 0 \<or> b \<in> set order \<Longrightarrow> Cell_TryAllocate cs b cellsNeeded = (cs, None)"
      using nq nz d(3) sentinel_fail not_qualifies_fail by blast
    have "m = 0 \<or> m \<in> set order" using maxFree_in[of cs 0 order] by (simp add: m_def)
    then have f2: "Cell_TryAllocate cs m cellsNeeded = (cs, None)" by (rule fail)
    have "curBlock p = 0 \<or> curBlock p \<in> set order"
      using d(5) UpdateCurBlock_eq(2)[OF assms(1)] by (simp add: order_def cs_def)
    then have f1: "Cell_TryAllocate cs (curBlock p) cellsNeeded = (cs, None)" by (rule fail)
    have pid: "p\<lparr>cells := cs\<rparr> = p" "cells (p\<lparr>curBlock := m\<rparr>) = cs"
      "p\<lparr>curBlock := m, cells := cs\<rparr> = p\<lparr>curBlock := m\<rparr>"
      by (simp_all add: cs_def)
    have "TryAllocate N p (cellsNeeded - 1) = Some (p\<lparr>curBlock := m\<rparr>, None)"
      using f1 f2 upd by (simp add: TryAllocate_def cs_def[symmetric] pid)
    then show "Cell_TryAllocate cs m cellsNeeded = (cs, None) \<and>
              TryAllocate N p (cellsNeeded - 1) = Some (p\<lparr>curBlock := m\<rparr>, None)"
      using f2 by simp
  qed
  show ?thesis unfolding cs_def[symmetric] order_def[symmetric]
    apply (rule exI[of _ m])
    apply (intro conjI)
       apply (rule upd)
      apply (rule allalloc)
     apply (rule somefree)
    apply (rule attempt)
    done
qed

lemma UpdateCurBlock_no_fit_example:
  "wf_page 8 page_tie \<and> scanOrder 8 page_tie = [4, 6, 1, 3] \<and>
   \<not> qualifies (cells page_tie) 3 4 \<and> \<not> qualifies (cells page_tie) 3 6 \<and>
   \<not> qualifies (cells page_tie) 3 1 \<and> \<not> qualifies (cells page_tie) 3 3 \<and>
   UpdateCurBlock 8 page_tie 3 = Some (page_tie\<lparr>curBlock := 4\<rparr>) \<and>
   \<not> isAllocated (cells page_tie ! 1) \<and>
   cellSize (cells page_tie ! 1) = cellSize (cells page_tie ! 4) \<and>
   TryAllocate 8 page_tie 2 = Some (page_tie\<lparr>curBlock := 4\<rparr>, None)"
proof -
  have w: "wf_page 8 page_tie"
    by (rule wf_page_eval) (simp add: valid_CELL_COUNT_def, code_simp)
  have s: "scanOrder 8 page_tie = [4, 6, 1, 3]" by code_simp
  have n: "\<forall>x\<in>set (scanOrder 8 page_tie). \<not> qualifies (cells page_tie) 3 x"
    unfolding s by code_simp
  have e: "\<not> isAllocated (cells page_tie ! 1) \<and>
           cellSize (cells page_tie ! 1) = cellSize (cells page_tie ! 4)" by code_simp
  have u: "UpdateCurBlock 8 page_tie 3 = Some (page_tie\<lparr>curBlock := 4\<rparr>)" by code_simp
  from UpdateCurBlock_no_fit[OF w n] obtain m where
    m: "UpdateCurBlock 8 page_tie 3 = Some (page_tie\<lparr>curBlock := m\<rparr>)"
       "(3 :: u32) \<noteq> 0 \<longrightarrow> TryAllocate 8 page_tie (3 - 1) = Some (page_tie\<lparr>curBlock := m\<rparr>, None)"
    by blast
  have "curBlock (page_tie\<lparr>curBlock := m\<rparr>) = curBlock (page_tie\<lparr>curBlock := 4\<rparr>)"
    using m(1) u by simp
  then have "m = 4" by simp
  then have "TryAllocate 8 page_tie 2 = Some (page_tie\<lparr>curBlock := 4\<rparr>, None)"
    using m(2) by simp
  then show ?thesis using w s n e u by simp
qed

text \<open>C6. When no cell of the scan fits, the allocation attempt is to fail. It does not for
  \<open>blockSize = 2^32 - 1\<close>: \<open>blockSize + 1\<close> wraps to \<open>cellsNeeded = 0\<close>, and on the full
  page that \<open>TryAllocate(2)\<close> and \<open>TryAllocate(3)\<close> leave, where no cell of the scan is
  free, \<open>UpdateCurBlock(0)\<close> puts the cursor on the sentinel and the retry succeeds there: the
  sentinel, which the constructor's comment says no use can be made of, is marked allocated
  and \<open>TryAllocate\<close> returns its payload address, the header of \<open>cells[1]\<close>.\<close>

theorem TryAllocate_wrap_allocates_sentinel:
  "run 8 (MediumPage_new 8 (replicate 8 (Cell_new 9)) 0) [OpTryAllocate 2, OpTryAllocate 3] =
     Some page_full \<and>
   (4294967295 :: u32) + 1 = 0 \<and>
   scanOrder 8 page_full = [4, 1] \<and>
   \<not> qualifies (cells page_full) 0 4 \<and> \<not> qualifies (cells page_full) 0 1 \<and>
   UpdateCurBlock 8 page_full 0 = Some (page_full\<lparr>curBlock := 0\<rparr>) \<and>
   Cell_TryAllocate (cells page_full) 0 0 =
     ((cells page_full)[0 := \<lparr>isAllocated = True, cellSize = 0\<rparr>], Some 1) \<and>
   TryAllocate 8 page_full 4294967295 =
     Some (page_full\<lparr>cells := (cells page_full)[0 := \<lparr>isAllocated = True, cellSize = 0\<rparr>],
                      curBlock := 0\<rparr>,
           Some 1)"
proof -
  have r: "run 8 (MediumPage_new 8 (replicate 8 (Cell_new 9)) 0)
             [OpTryAllocate 2, OpTryAllocate 3] = Some page_full"
    by code_simp
  have w: "(4294967295 :: u32) + 1 = 0" by simp
  have s: "scanOrder 8 page_full = [4, 1]" by code_simp
  have q: "\<not> qualifies (cells page_full) 0 4 \<and> \<not> qualifies (cells page_full) 0 1"
    by code_simp
  have u: "UpdateCurBlock 8 page_full 0 = Some (page_full\<lparr>curBlock := 0\<rparr>)" by code_simp
  have c: "Cell_TryAllocate (cells page_full) 0 0 =
     ((cells page_full)[0 := \<lparr>isAllocated = True, cellSize = 0\<rparr>], Some 1)"
    by code_simp
  have t: "TryAllocate 8 page_full 4294967295 =
     Some (page_full\<lparr>cells := (cells page_full)[0 := \<lparr>isAllocated = True, cellSize = 0\<rparr>],
                      curBlock := 0\<rparr>,
           Some 1)"
    by code_simp
  show ?thesis by (intro conjI r w s q[THEN conjunct1] q[THEN conjunct2] u c t)
qed

subsection \<open>Sweep\<close>

text \<open>C2. On a well-formed page \<open>Sweep\<close> returns, and of the cells of the chain: a cell that
  was allocated and marked is still a cell of the chain, unchanged and allocated, and its
  mark is cleared; every other cell (allocated and unmarked, or free before) is free and lies
  inside a free cell of the new chain; no other cell of the new chain is allocated. The
  result is true exactly when a cell of the new chain is allocated.\<close>

theorem Sweep_reclaims:
  assumes "wf_page N p"
  shows "\<exists>p' marks' alive. Sweep N p marks = Some (p', marks', alive) \<and>
     (\<forall>j\<in>set (cellChain N (cells p) 1). isAllocated (cells p ! j) \<and> Cell_data j \<in> marks \<longrightarrow>
         j \<in> set (cellChain N (cells p') 1) \<and> cells p' ! j = cells p ! j \<and>
         Cell_data j \<notin> marks') \<and>
     (\<forall>j\<in>set (cellChain N (cells p) 1). \<not> (isAllocated (cells p ! j) \<and> Cell_data j \<in> marks) \<longrightarrow>
         \<not> isAllocated (cells p' ! j) \<and>
         (\<exists>f\<in>set (cellChain N (cells p') 1). \<not> isAllocated (cells p' ! f) \<and> f \<le> j \<and>
             Cell_Next (cells p) j \<le> Cell_Next (cells p') f)) \<and>
     (\<forall>f\<in>set (cellChain N (cells p') 1). isAllocated (cells p' ! f) \<longrightarrow>
         f \<in> set (cellChain N (cells p) 1) \<and> isAllocated (cells p ! f) \<and> Cell_data f \<in> marks) \<and>
     (alive \<longleftrightarrow> (\<exists>f\<in>set (cellChain N (cells p') 1). isAllocated (cells p' ! f)))"
proof -
  define cs where "cs = cells p"
  define js where "js = cellChain N cs 1"
  from Sweep_result[OF assms, of marks, folded cs_def, folded js_def] obtain cs1 cs2 js' where
    r: "length cs1 = N" "chain N cs1 1 js"
       "\<forall>j. cs1 ! j = (if j \<in> set js \<and> isAllocated (cs ! j) \<and> Cell_data j \<notin> marks
                     then (cs ! j)\<lparr>isAllocated := False\<rparr> else cs ! j)"
       "length cs2 = N" "chain N cs2 1 js'"
       "\<forall>j. isAllocated (cs2 ! j) = isAllocated (cs1 ! j)"
       "set js' \<subseteq> set js"
       "\<forall>j\<in>set js. isAllocated (cs1 ! j) \<longrightarrow> j \<in> set js' \<and> cs2 ! j = cs1 ! j"
       "\<forall>j\<in>set js. \<exists>f\<in>set js'. f \<le> j \<and> Cell_Next cs1 j \<le> Cell_Next cs2 f \<and>
                           isAllocated (cs1 ! f) = isAllocated (cs1 ! j)"
       "Sweep N p marks =
         Some (p\<lparr>cells := cs2, curBlock := maxFree cs2 0 js'\<rparr>,
             marks - Cell_data ` {j \<in> set js. isAllocated (cs ! j)},
             \<exists>j\<in>set js. isAllocated (cs ! j) \<and> Cell_data j \<in> marks)"
    by blast
  define p' where "p' = p\<lparr>cells := cs2, curBlock := maxFree cs2 0 js'\<rparr>"
  have cp': "cells p' = cs2" by (simp add: p'_def)
  have cc': "cellChain N cs2 1 = js'" using r(5) by (rule chain_cellChain)
  have next1: "\<And>j. Cell_Next cs1 j = Cell_Next cs j"
    using r(3) by (simp add: Cell_Next_def)
  have a: "\<forall>j\<in>set js. isAllocated (cs ! j) \<and> Cell_data j \<in> marks \<longrightarrow>
         j \<in> set js' \<and> cs2 ! j = cs ! j \<and>
         Cell_data j \<notin> marks - Cell_data ` {j \<in> set js. isAllocated (cs ! j)}"
    using r(3,8) by auto
  have b: "\<forall>j\<in>set js. \<not> (isAllocated (cs ! j) \<and> Cell_data j \<in> marks) \<longrightarrow>
         \<not> isAllocated (cs2 ! j) \<and>
         (\<exists>f\<in>set js'. \<not> isAllocated (cs2 ! f) \<and> f \<le> j \<and> Cell_Next cs j \<le> Cell_Next cs2 f)"
  proof (intro ballI impI)
    fix j assume j: "j \<in> set js" "\<not> (isAllocated (cs ! j) \<and> Cell_data j \<in> marks)"
    then have f1: "\<not> isAllocated (cs1 ! j)" using r(3) by auto
    from r(9) j(1) obtain f where
      f: "f \<in> set js'" "f \<le> j" "Cell_Next cs1 j \<le> Cell_Next cs2 f"
         "isAllocated (cs1 ! f) = isAllocated (cs1 ! j)" by blast
    show "\<not> isAllocated (cs2 ! j) \<and>
         (\<exists>f\<in>set js'. \<not> isAllocated (cs2 ! f) \<and> f \<le> j \<and> Cell_Next cs j \<le> Cell_Next cs2 f)"
      using f f1 r(6) next1 by auto
  qed
  have c: "\<forall>f\<in>set js'. isAllocated (cs2 ! f) \<longrightarrow>
         f \<in> set js \<and> isAllocated (cs ! f) \<and> Cell_data f \<in> marks"
  proof (intro ballI impI)
    fix f assume f: "f \<in> set js'" "isAllocated (cs2 ! f)"
    then have "f \<in> set js" "isAllocated (cs1 ! f)" using r(6,7) by auto
    then show "f \<in> set js \<and> isAllocated (cs ! f) \<and> Cell_data f \<in> marks"
      using r(3) by (auto split: if_splits)
  qed
  have d: "(\<exists>j\<in>set js. isAllocated (cs ! j) \<and> Cell_data j \<in> marks) \<longleftrightarrow>
           (\<exists>f\<in>set js'. isAllocated (cs2 ! f))"
    using a c by metis
  show ?thesis unfolding cs_def[symmetric] js_def[symmetric]
    apply (rule exI[of _ p'])
    apply (rule exI[of _ "marks - Cell_data ` {j \<in> set js. isAllocated (cs ! j)}"])
    apply (rule exI[of _ "\<exists>j\<in>set js. isAllocated (cs ! j) \<and> Cell_data j \<in> marks"])
    unfolding cp' cc'
    apply (intro conjI)
        apply (simp add: r(10) p'_def)
       apply (rule a)
      apply (rule b)
     apply (rule c)
    apply (rule d)
    done
qed

theorem Sweep_reclaims_witness:
  "wf_page 8 page_sweep \<and>
   Sweep 8 page_sweep {2} = Some (page_swept, {}, True) \<and>
   cellChain 8 (cells page_sweep) 1 = [1, 3, 4, 6] \<and>
   cellChain 8 (cells page_swept) 1 = [1, 3] \<and>
   (\<exists>p' marks' alive. Sweep 8 page_sweep {2} = Some (p', marks', alive) \<and>
     (\<forall>j\<in>set (cellChain 8 (cells page_sweep) 1). isAllocated (cells page_sweep ! j) \<and> Cell_data j \<in> {2} \<longrightarrow>
         j \<in> set (cellChain 8 (cells p') 1) \<and> cells p' ! j = cells page_sweep ! j \<and>
         Cell_data j \<notin> marks') \<and>
     (\<forall>j\<in>set (cellChain 8 (cells page_sweep) 1). \<not> (isAllocated (cells page_sweep ! j) \<and> Cell_data j \<in> {2}) \<longrightarrow>
         \<not> isAllocated (cells p' ! j) \<and>
         (\<exists>f\<in>set (cellChain 8 (cells p') 1). \<not> isAllocated (cells p' ! f) \<and> f \<le> j \<and>
             Cell_Next (cells page_sweep) j \<le> Cell_Next (cells p') f)) \<and>
     (\<forall>f\<in>set (cellChain 8 (cells p') 1). isAllocated (cells p' ! f) \<longrightarrow>
         f \<in> set (cellChain 8 (cells page_sweep) 1) \<and> isAllocated (cells page_sweep ! f) \<and> Cell_data f \<in> {2}) \<and>
     (alive \<longleftrightarrow> (\<exists>f\<in>set (cellChain 8 (cells p') 1). isAllocated (cells p' ! f))))"
proof -
  have w: "wf_page 8 page_sweep"
    by (rule wf_page_eval) (simp add: valid_CELL_COUNT_def, code_simp)
  have s: "Sweep 8 page_sweep {2} = Some (page_swept, {}, True)" by code_simp
  have c: "cellChain 8 (cells page_sweep) 1 = [1, 3, 4, 6]"
    "cellChain 8 (cells page_swept) 1 = [1, 3]" by code_simp+
  show ?thesis
    by (intro conjI w s c Sweep_reclaims[OF w])
qed

text \<open>C7. The second loop of \<open>Sweep\<close> turns the cells that the first loop left, read in
  chain order, into their coalesced form: each free cell has absorbed the free cells that
  followed it directly, its size being the sum, so no two free cells are adjacent afterwards.
  Two adjacent free cells of sizes \<open>a\<close> and \<open>b\<close> with no free neighbour become one free
  cell of size \<open>a + b\<close>. The cursor is left on the sentinel when no cell is free, and
  otherwise on the largest free cell, the first one of that size in chain order.\<close>

theorem Sweep_coalesces:
  assumes "wf_page N p"
  shows "\<exists>cs1 p' marks' alive.
      Sweep_loop1 N (cells p) marks False 1 = Some (cs1, marks', alive) \<and>
      Sweep N p marks = Some (p', marks', alive) \<and>
      map ((!) (cells p')) (cellChain N (cells p') 1) = coalesce (map ((!) cs1) (cellChain N cs1 1)) \<and>
      \<not> adjacentFree (map ((!) (cells p')) (cellChain N (cells p') 1)) \<and>
      (\<forall>pre a b post.
          map ((!) cs1) (cellChain N cs1 1) = pre @ a # b # post \<and>
          \<not> isAllocated a \<and> \<not> isAllocated b \<and>
          (pre = [] \<or> isAllocated (last pre)) \<and> (post = [] \<or> isAllocated (hd post)) \<longrightarrow>
          map ((!) (cells p')) (cellChain N (cells p') 1) =
            coalesce pre @ a\<lparr>cellSize := cellSize a + cellSize b\<rparr> # coalesce post) \<and>
      ((\<forall>x\<in>set (cellChain N (cells p') 1). isAllocated (cells p' ! x)) \<longrightarrow> curBlock p' = 0) \<and>
      ((\<exists>x\<in>set (cellChain N (cells p') 1). \<not> isAllocated (cells p' ! x)) \<longrightarrow>
         (\<exists>pre post. cellChain N (cells p') 1 = pre @ curBlock p' # post \<and>
            \<not> isAllocated (cells p' ! curBlock p') \<and>
            (\<forall>x\<in>set pre. \<not> isAllocated (cells p' ! x) \<longrightarrow>
               cellSize (cells p' ! x) < cellSize (cells p' ! curBlock p')) \<and>
            (\<forall>x\<in>set post. \<not> isAllocated (cells p' ! x) \<longrightarrow>
               cellSize (cells p' ! x) \<le> cellSize (cells p' ! curBlock p'))))"
proof -
  define cs where "cs = cells p"
  define js where "js = cellChain N cs 1"
  define marks' where "marks' = marks - Cell_data ` {j \<in> set js. isAllocated (cs ! j)}"
  define alive where "alive = (\<exists>j\<in>set js. isAllocated (cs ! j) \<and> Cell_data j \<in> marks)"
  note d = wf_pageD[OF assms, folded cs_def]
  from Sweep_result[OF assms, of marks, folded cs_def, folded js_def,
      folded marks'_def alive_def]
  obtain cs1 cs2 js' where
    r: "Sweep_loop1 N cs marks False 1 = Some (cs1, marks', alive)"
       "chain N cs1 1 js"
       "length cs2 = N" "chain N cs2 1 js'"
       "map ((!) cs2) js' = coalesce (map ((!) cs1) js)"
       "cs2 ! 0 = cs ! 0"
       "Sweep N p marks = Some (p\<lparr>cells := cs2, curBlock := maxFree cs2 0 js'\<rparr>, marks', alive)"
    by blast
  define p' where "p' = p\<lparr>cells := cs2, curBlock := maxFree cs2 0 js'\<rparr>"
  have cp': "cells p' = cs2" "curBlock p' = maxFree cs2 0 js'" by (simp_all add: p'_def)
  have cc': "cellChain N cs2 1 = js'" using r(4) by (rule chain_cellChain)
  have cc1: "cellChain N cs1 1 = js" using r(2) by (rule chain_cellChain)
  have na: "\<not> adjacentFree (map ((!) cs2) js')"
    unfolding r(5) by (rule coalesce_no_adjacentFree)
  have pair: "\<forall>pre a b post.
          map ((!) cs1) js = pre @ a # b # post \<and>
          \<not> isAllocated a \<and> \<not> isAllocated b \<and>
          (pre = [] \<or> isAllocated (last pre)) \<and> (post = [] \<or> isAllocated (hd post)) \<longrightarrow>
          map ((!) cs2) js' =
            coalesce pre @ a\<lparr>cellSize := cellSize a + cellSize b\<rparr> # coalesce post"
    unfolding r(5) using coalesce_pair by auto
  have z: "cellSize (cs2 ! 0) = 0" using r(6) d(3) by simp
  have nz: "\<forall>x\<in>set js'. cellSize (cs2 ! x) \<noteq> 0" using r(4) path_sizes by blast
  note mx = maxFree_sentinel[OF z nz]
  show ?thesis unfolding cs_def[symmetric]
    apply (rule exI[of _ cs1])
    apply (rule exI[of _ p'])
    apply (rule exI[of _ marks'])
    apply (rule exI[of _ alive])
    unfolding cp' cc' cc1
    apply (intro conjI)
          apply (rule r(1))
         apply (simp add: r(7) p'_def)
        apply (rule r(5))
       apply (rule na)
      apply (rule pair)
     apply (rule mx[THEN conjunct1])
    apply (rule mx[THEN conjunct2])
    done
qed

theorem Sweep_coalesces_witness:
  "wf_page 8 page_sweep \<and>
   Sweep 8 page_sweep {2} = Some (page_swept, {}, True) \<and>
   (\<exists>cs1. Sweep_loop1 8 (cells page_sweep) {2} False 1 = Some (cs1, {}, True) \<and>
      map ((!) cs1) (cellChain 8 cs1 1) =
        [\<lparr>isAllocated = True, cellSize = 2\<rparr>, Cell_new 1, Cell_new 2, Cell_new 2]) \<and>
   map ((!) (cells page_swept)) (cellChain 8 (cells page_swept) 1) =
     [\<lparr>isAllocated = True, cellSize = 2\<rparr>, Cell_new 5] \<and>
   curBlock page_swept = 3"
proof -
  have w: "wf_page 8 page_sweep"
    by (rule wf_page_eval) (simp add: valid_CELL_COUNT_def, code_simp)
  have s: "Sweep 8 page_sweep {2} = Some (page_swept, {}, True)" by code_simp
  have v: "map ((!) (cells page_swept)) (cellChain 8 (cells page_swept) 1) =
     [\<lparr>isAllocated = True, cellSize = 2\<rparr>, Cell_new 5]" by code_simp
  have c: "curBlock page_swept = 3" by code_simp
  from Sweep_coalesces[OF w, of "{2}"] obtain cs1 p' marks' alive where
    r: "Sweep_loop1 8 (cells page_sweep) {2} False 1 = Some (cs1, marks', alive)"
       "Sweep 8 page_sweep {2} = Some (p', marks', alive)"
       "map ((!) (cells p')) (cellChain 8 (cells p') 1) = coalesce (map ((!) cs1) (cellChain 8 cs1 1))"
    by blast
  have l1: "Sweep_loop1 8 (cells page_sweep) {2} False 1 =
      Some ((cells page_sweep)[3 := Cell_new 1, 4 := Cell_new 2], {}, True)"
    by code_simp
  have "map ((!) ((cells page_sweep)[3 := Cell_new 1, 4 := Cell_new 2]))
          (cellChain 8 ((cells page_sweep)[3 := Cell_new 1, 4 := Cell_new 2]) 1) =
        [\<lparr>isAllocated = True, cellSize = 2\<rparr>, Cell_new 1, Cell_new 2, Cell_new 2]"
    by code_simp
  then have "\<exists>cs1. Sweep_loop1 8 (cells page_sweep) {2} False 1 = Some (cs1, {}, True) \<and>
      map ((!) cs1) (cellChain 8 cs1 1) =
        [\<lparr>isAllocated = True, cellSize = 2\<rparr>, Cell_new 1, Cell_new 2, Cell_new 2]"
    using l1 r(1) by simp
  then show ?thesis using w s v c by simp
qed

text \<open>C3, as amended. A second \<open>Sweep\<close>, with no allocation in between, leaves the page
  as the first one left it and returns the same boolean, provided that the marks at the second
  call are those of the first call (the cells that survived are marked again), or that the
  first call returned false.\<close>

theorem Sweep_twice:
  assumes "wf_page N p" "Sweep N p marks = Some (p1, marks1, alive1)"
    "marks2 = marks \<or> \<not> alive1"
  shows "\<exists>marks2'. Sweep N p1 marks2 = Some (p1, marks2', alive1)"
proof -
  define cs where "cs = cells p"
  define js where "js = cellChain N cs 1"
  note d = wf_pageD[OF assms(1), folded cs_def]
  from Sweep_result[OF assms(1), of marks, folded cs_def, folded js_def]
  obtain cs1 cs2 js' where
    r: "\<forall>j. cs1 ! j = (if j \<in> set js \<and> isAllocated (cs ! j) \<and> Cell_data j \<notin> marks
                     then (cs ! j)\<lparr>isAllocated := False\<rparr> else cs ! j)"
       "length cs2 = N" "chain N cs2 1 js'"
       "map ((!) cs2) js' = coalesce (map ((!) cs1) js)"
       "cs2 ! 0 = cs ! 0"
       "\<forall>j. isAllocated (cs2 ! j) = isAllocated (cs1 ! j)"
       "set js' \<subseteq> set js"
       "\<forall>j\<in>set js. isAllocated (cs1 ! j) \<longrightarrow> j \<in> set js' \<and> cs2 ! j = cs1 ! j"
       "Sweep N p marks =
         Some (p\<lparr>cells := cs2, curBlock := maxFree cs2 0 js'\<rparr>,
             marks - Cell_data ` {j \<in> set js. isAllocated (cs ! j)},
             \<exists>j\<in>set js. isAllocated (cs ! j) \<and> Cell_data j \<in> marks)"
    by blast
  have p1: "p1 = p\<lparr>cells := cs2, curBlock := maxFree cs2 0 js'\<rparr>"
    and a1: "alive1 = (\<exists>j\<in>set js. isAllocated (cs ! j) \<and> Cell_data j \<in> marks)"
    using assms(2) r(9) by simp_all
  have surv: "\<forall>f\<in>set js'. isAllocated (cs2 ! f) \<longrightarrow> isAllocated (cs ! f) \<and> Cell_data f \<in> marks"
  proof (intro ballI impI)
    fix f assume f: "f \<in> set js'" "isAllocated (cs2 ! f)"
    then have "f \<in> set js" "isAllocated (cs1 ! f)" using r(6,7) by auto
    then show "isAllocated (cs ! f) \<and> Cell_data f \<in> marks"
      using r(1) by (auto split: if_splits)
  qed
  have a1': "alive1 = (\<exists>f\<in>set js'. isAllocated (cs2 ! f))"
  proof -
    have "\<And>j. j \<in> set js \<Longrightarrow> isAllocated (cs ! j) \<Longrightarrow> Cell_data j \<in> marks \<Longrightarrow>
              j \<in> set js' \<and> isAllocated (cs2 ! j)"
      using r(1,8) by auto
    then show ?thesis unfolding a1 using surv r(7) by blast
  qed
  have marked2: "\<forall>f\<in>set js'. isAllocated (cs2 ! f) \<longrightarrow> Cell_data f \<in> marks2"
    using assms(3) surv a1' by auto
  from Sweep_loop1_chain[OF r(3,2), of marks2 False] obtain cs3 where
    l1: "Sweep_loop1 N cs2 marks2 False 1 =
           Some (cs3, marks2 - Cell_data ` {j \<in> set js'. isAllocated (cs2 ! j)},
                 \<exists>j\<in>set js'. isAllocated (cs2 ! j) \<and> Cell_data j \<in> marks2)"
        "length cs3 = N"
        "\<forall>j. cs3 ! j = (if j \<in> set js' \<and> isAllocated (cs2 ! j) \<and> Cell_data j \<notin> marks2
                         then (cs2 ! j)\<lparr>isAllocated := False\<rparr> else cs2 ! j)"
    by auto
  have "\<forall>j. cs3 ! j = cs2 ! j" using l1(3) marked2 by auto
  then have cs3: "cs3 = cs2" using l1(2) r(2) by (simp add: nth_equalityI)
  have al2: "(\<exists>j\<in>set js'. isAllocated (cs2 ! j) \<and> Cell_data j \<in> marks2) = alive1"
    unfolding a1' using marked2 by auto
  have na: "\<not> adjacentFree (map ((!) cs2) js')"
    unfolding r(4) by (rule coalesce_no_adjacentFree)
  have l2: "Sweep_loop2 N cs2 0 1 = Some (cs2, maxFree cs2 0 js')"
    using r(3) na by (rule Sweep_loop2_fixed)
  have "Sweep N p1 marks2 =
          Some (p1, marks2 - Cell_data ` {j \<in> set js'. isAllocated (cs2 ! j)}, alive1)"
    using l1(1) l2 by (simp add: Sweep_def p1 cs3 al2)
  then show ?thesis by blast
qed

theorem Sweep_twice_witness:
  "wf_page 8 page_sweep \<and> Sweep 8 page_sweep {2} = Some (page_swept, {}, True) \<and>
   (\<exists>marks2'. Sweep 8 page_swept {2} = Some (page_swept, marks2', True))"
proof -
  have w: "wf_page 8 page_sweep"
    by (rule wf_page_eval) (simp add: valid_CELL_COUNT_def, code_simp)
  have s: "Sweep 8 page_sweep {2} = Some (page_swept, {}, True)" by code_simp
  show ?thesis using Sweep_twice[OF w s, of "{2}"] w s by simp
qed

text \<open>With the marks left as the first call left them the property does not hold: the
  first \<open>Sweep\<close> clears the mark of the cell it keeps, and the second \<open>Sweep\<close> frees that
  cell and returns false. The page is the one that three allocations leave.\<close>

theorem Sweep_twice_counterexample:
  "run 8 (MediumPage_new 8 (replicate 8 (Cell_new 9)) 0)
     [OpTryAllocate 1, OpTryAllocate 0, OpTryAllocate 1] = Some page_sweep \<and>
   Sweep 8 page_sweep {2} = Some (page_swept, {}, True) \<and>
   Sweep 8 page_swept {} =
     Some (page_swept\<lparr>cells := (cells page_swept)[1 := Cell_new 7], curBlock := 1\<rparr>, {}, False) \<and>
   page_swept\<lparr>cells := (cells page_swept)[1 := Cell_new 7], curBlock := 1\<rparr> \<noteq> page_swept"
proof -
  have w: "run 8 (MediumPage_new 8 (replicate 8 (Cell_new 9)) 0)
     [OpTryAllocate 1, OpTryAllocate 0, OpTryAllocate 1] = Some page_sweep"
    by code_simp
  have s: "Sweep 8 page_sweep {2} = Some (page_swept, {}, True)" by code_simp
  have t: "Sweep 8 page_swept {} =
     Some (page_swept\<lparr>cells := (cells page_swept)[1 := Cell_new 7], curBlock := 1\<rparr>, {}, False)"
    by code_simp
  have n: "page_swept\<lparr>cells := (cells page_swept)[1 := Cell_new 7], curBlock := 1\<rparr> \<noteq> page_swept"
    by code_simp
  show ?thesis using w s t n by simp
qed

subsection \<open>The cursor after UpdateCurBlock and Sweep\<close>

text \<open>C10. Whenever \<open>UpdateCurBlock\<close> returns, and whenever \<open>Sweep\<close> returns, the cursor
  is on \<open>cells[0]\<close> or on a cell whose allocated flag is false; this holds for every page
  state. On a well-formed page both calls return.\<close>

theorem cursor_not_on_allocated:
  "(UpdateCurBlock N p cellsNeeded = Some p' \<longrightarrow>
      curBlock p' = 0 \<or> \<not> isAllocated (cells p' ! curBlock p')) \<and>
   (Sweep N p marks = Some (p'', marks', alive) \<longrightarrow>
      curBlock p'' = 0 \<or> \<not> isAllocated (cells p'' ! curBlock p'')) \<and>
   (wf_page N p \<longrightarrow>
      (\<exists>q. UpdateCurBlock N p cellsNeeded = Some q) \<and> (\<exists>q. Sweep N p marks = Some q))"
proof (intro conjI impI)
  assume "UpdateCurBlock N p cellsNeeded = Some p'"
  then show "curBlock p' = 0 \<or> \<not> isAllocated (cells p' ! curBlock p')"
    by (rule UpdateCurBlock_free)
next
  assume "Sweep N p marks = Some (p'', marks', alive)"
  then show "curBlock p'' = 0 \<or> \<not> isAllocated (cells p'' ! curBlock p'')"
    by (rule Sweep_free)
next
  assume "wf_page N p"
  then show "\<exists>q. UpdateCurBlock N p cellsNeeded = Some q"
    using UpdateCurBlock_eq(1) by blast
next
  assume "wf_page N p"
  from Sweep_result[OF this, of marks] show "\<exists>q. Sweep N p marks = Some q" by blast
qed

theorem cursor_not_on_allocated_witness:
  "wf_page 8 page_fit \<and>
   UpdateCurBlock 8 page_fit 2 = Some (page_fit\<lparr>curBlock := 4\<rparr>) \<and>
   \<not> isAllocated (cells (page_fit\<lparr>curBlock := 4\<rparr>) ! curBlock (page_fit\<lparr>curBlock := 4\<rparr>)) \<and>
   Sweep 8 page_fit {2} = Some (page_fit\<lparr>cells := (cells page_fit)[3 := Cell_new 5], curBlock := 3\<rparr>, {}, True) \<and>
   \<not> isAllocated ((cells page_fit)[3 := Cell_new 5] ! 3)"
proof -
  have w: "wf_page 8 page_fit"
    by (rule wf_page_eval) (simp add: valid_CELL_COUNT_def, code_simp)
  have u: "UpdateCurBlock 8 page_fit 2 = Some (page_fit\<lparr>curBlock := 4\<rparr>)" by code_simp
  have s: "Sweep 8 page_fit {2} =
             Some (page_fit\<lparr>cells := (cells page_fit)[3 := Cell_new 5], curBlock := 3\<rparr>, {}, True)"
    by code_simp
  have "curBlock (page_fit\<lparr>curBlock := 4\<rparr>) \<noteq> 0" by simp
  moreover have
    "curBlock (page_fit\<lparr>cells := (cells page_fit)[3 := Cell_new 5], curBlock := 3\<rparr>) \<noteq> 0"
    by simp
  ultimately show ?thesis
    using cursor_not_on_allocated[of 8 page_fit 2 "page_fit\<lparr>curBlock := 4\<rparr>" "{2}"
        "page_fit\<lparr>cells := (cells page_fit)[3 := Cell_new 5], curBlock := 3\<rparr>" "{}" True]
      w u s by simp
qed

end
